theory Spec2Isabelle
  imports Main "HOL-Library.Sublist"
begin

section \<open>Data model\<close>

text \<open>
  Objects are identified by an address; \<open>indexOf\<close> compares components by identity, which
  is equality of addresses. The host application (\<open>window\<close>, \<open>document\<close>, \<open>app.commands\<close>,
  \<open>app.events\<close>, \<open>app.workspace\<close>, \<open>app.plugins\<close>, \<open>console\<close>) is an external collaborator:
  a call into it is recorded, in order, in the trace of the state.
\<close>

type_synonym addr = nat

datatype hostcall =
    CommandsRegister string
  | CommandsUnregister string
  | EventsOff nat
  | WorkspaceRegisterView string
  | WorkspaceUnregisterView string
  | WorkspaceRegisterExtensions "string list" string
  | WorkspaceUnregisterExtensions "string list"
  | HeadAppendStyle string string
  | StyleRemove string string
  | PluginsRegisterSettingsTab string nat
  | PluginsUnregisterSettingsTab string
  | ConsoleError string
  | Effect string

text \<open>
  A callback (\<open>() => void\<close>) and the body of a hook (\<open>onload\<close>, \<open>onunload\<close>) are closures
  supplied by the author of a subclass. They are represented by the list of the calls they
  make: calls into the host, calls of the public methods of any component or plugin (also
  of the one that is running them), and \<open>throw\<close>. \<open>PluginOnunload a\<close> is the body of
  \<open>Plugin.onunload\<close> run for the plugin \<open>a\<close> (inherited, or reached by \<open>super.onunload()\<close>).

  Two of the closures that \<open>Plugin\<close> registers read the heap when they run.
  \<open>UnregisterExtensions r\<close> is \<open>() => { this.app.workspace.unregisterExtensions(extensions) }\<close>,
  where \<open>extensions\<close> is the array \<open>r\<close> the caller of \<open>registerExtensions\<close> passed (an array is
  passed by reference, and the caller may change it afterwards). \<open>UnregisterSettingsTab a\<close>
  is \<open>() => { this.app.plugins.unregisterSettingsTab(this.manifest.id) }\<close> of the plugin \<open>a\<close>
  (\<open>manifest\<close> is a public field holding a mutable object).
\<close>

datatype cmd =
    Host hostcall
  | Throw string
  | CallLoad addr
  | CallUnload addr
  | CallRegister addr "cmd list"
  | CallRegisterInterval addr nat
  | CallAddChild addr addr
  | CallRemoveChild addr addr
  | CallAddCommand addr string
  | CallRegisterEvent addr nat
  | CallRegisterView addr string
  | CallRegisterExtensions addr nat string
  | CallLoadCss addr string
  | CallAddSettingTab addr nat
  | PluginOnunload addr
  | UnregisterExtensions nat
  | UnregisterSettingsTab addr

type_synonym callback = "cmd list"

text \<open>
  The trace holds the host calls and, as a recorded invocation sequence, the calls that
  \<open>load\<close> and \<open>unload\<close> make: \<open>ChildUnload a c\<close> is \<open>child.unload()\<close> called by \<open>a\<close> on its
  child \<open>c\<close>, \<open>TimerCancel a ident\<close> is \<open>window.clearInterval(ident)\<close> called by \<open>a\<close>,
  \<open>Dispose a cb\<close> is \<open>cb()\<close> called by \<open>a\<close> on its disposable \<open>cb\<close>, \<open>Onload a\<close> and
  \<open>Onunload a\<close> are \<open>this.onload()\<close> and \<open>this.onunload()\<close> called by \<open>a\<close>. \<open>Invoke c\<close> is the
  method call \<open>c\<close> made by a callback or by the body of a hook.
\<close>

datatype event =
    Extern hostcall
  | ChildUnload addr addr
  | TimerCancel addr nat
  | Dispose addr callback
  | Onload addr
  | Onunload addr
  | Invoke cmd

datatype json =
    JNull
  | JBool bool
  | JNum int
  | JStr string
  | JArr "json list"
  | JObj "(string \<times> json) list"

text \<open>
  The fields of \<open>Component\<close>, with the two hooks a subclass overrides, and the fields
  \<open>Plugin\<close> adds. A component that is not a plugin leaves the plugin fields unused.
\<close>

record component =
  loaded :: bool
  children :: "addr list"
  intervals :: "nat list"
  disposables :: "callback list"
  onload_hook :: callback
  onunload_hook :: callback

record plugin = component +
  manifest_id :: string
  registeredCommands :: "string list"
  registeredEvents :: "nat list"
  settingsData :: json

text \<open>
  \<open>this._children = []\<close> and \<open>this._disposables = []\<close> install a fresh array; the array that
  was there lives on for a \<open>forEach\<close> that is still iterating over it (which happens when a
  callback calls \<open>unload\<close> on the component that is running it). \<open>detached_children s a\<close> and
  \<open>detached_disposables s a\<close> keep these arrays, oldest first, so the number of arrays
  detached so far identifies the array a field currently holds. \<open>arrays\<close> holds the arrays
  of file extensions that callers pass to \<open>registerExtensions\<close>, by reference.
\<close>

record state =
  objs :: "addr \<Rightarrow> plugin"
  detached_children :: "addr \<Rightarrow> addr list list"
  detached_disposables :: "addr \<Rightarrow> callback list list"
  arrays :: "nat \<Rightarrow> string list"
  files :: "string \<Rightarrow> string option"
  dirs :: "string list"
  trace :: "event list"

text \<open>
  A call returns, or throws (the state reached at the \<open>throw\<close> is kept: nothing is rolled
  back), or does not come back within the call depth allowed (\<open>None\<close>).
\<close>

datatype outcome = Returns state | Throws string state

type_synonym result = "outcome option"

fun state_of :: "outcome \<Rightarrow> state" where
  "state_of (Returns s) = s"
| "state_of (Throws x s) = s"

definition andThen :: "result \<Rightarrow> (state \<Rightarrow> result) \<Rightarrow> result" where
  "andThen r f = (case r of None \<Rightarrow> None | Some (Throws x s) \<Rightarrow> Some (Throws x s) | Some (Returns s) \<Rightarrow> f s)"

definition upd :: "addr \<Rightarrow> (plugin \<Rightarrow> plugin) \<Rightarrow> state \<Rightarrow> state" where
  "upd a f s = s\<lparr>objs := (objs s)(a := f (objs s a))\<rparr>"

definition emit :: "event \<Rightarrow> state \<Rightarrow> state" where
  "emit e s = s\<lparr>trace := trace s @ [e]\<rparr>"

section \<open>Component\<close>

subsection \<open>Array operations\<close>

text \<open>\<open>Array.prototype.indexOf\<close>: the first index holding the element, \<open>-1\<close> when there is none.\<close>

fun indexOf :: "'a list \<Rightarrow> 'a \<Rightarrow> int" where
  "indexOf [] x = - 1"
| "indexOf (y # ys) x = (if y = x then 0 else (let i = indexOf ys x in if i = - 1 then - 1 else i + 1))"

text \<open>\<open>splice(index, 1)\<close> for an index inside the array.\<close>

definition splice1 :: "nat \<Rightarrow> 'a list \<Rightarrow> 'a list" where
  "splice1 i xs = take i xs @ drop (Suc i) xs"

text \<open>
  \<open>Array.prototype.forEach\<close>: the number of iterations is the length of the array when the
  call starts; at index \<open>k\<close> the array is read as it is then, and an index that is no more
  in the array is skipped. \<open>arr\<close> reads the array being iterated from the current state;
  \<open>m\<close> counts the iterations that remain.
\<close>

fun forEachFrom :: "(state \<Rightarrow> 'a list) \<Rightarrow> ('a \<Rightarrow> state \<Rightarrow> result) \<Rightarrow> nat \<Rightarrow> nat \<Rightarrow> state \<Rightarrow> result" where
  "forEachFrom arr f k 0 s = Some (Returns s)"
| "forEachFrom arr f k (Suc m) s =
     (if k < length (arr s) then andThen (f (arr s ! k) s) (forEachFrom arr f (Suc k) m)
      else forEachFrom arr f (Suc k) m s)"

definition forEach :: "(state \<Rightarrow> 'a list) \<Rightarrow> ('a \<Rightarrow> state \<Rightarrow> result) \<Rightarrow> state \<Rightarrow> result" where
  "forEach arr f s = forEachFrom arr f 0 (length (arr s)) s"

text \<open>The array that was the \<open>g\<close>-th to be held by \<open>_children\<close> (by \<open>_disposables\<close>) of \<open>a\<close>.\<close>

definition children_array :: "addr \<Rightarrow> nat \<Rightarrow> state \<Rightarrow> addr list" where
  "children_array a g s =
     (if g < length (detached_children s a) then detached_children s a ! g else children (objs s a))"

definition disposables_array :: "addr \<Rightarrow> nat \<Rightarrow> state \<Rightarrow> callback list" where
  "disposables_array a g s =
     (if g < length (detached_disposables s a) then detached_disposables s a ! g else disposables (objs s a))"

text \<open>\<open>this._children = []\<close>, \<open>this._intervals = []\<close>, \<open>this._disposables = []\<close>.\<close>

definition reset_children :: "addr \<Rightarrow> state \<Rightarrow> state" where
  "reset_children a s =
     upd a (\<lambda>ob. ob\<lparr>children := []\<rparr>)
       (s\<lparr>detached_children := (detached_children s)(a := detached_children s a @ [children (objs s a)])\<rparr>)"

definition reset_intervals :: "addr \<Rightarrow> state \<Rightarrow> state" where
  "reset_intervals a s = upd a (\<lambda>ob. ob\<lparr>intervals := []\<rparr>) s"

definition reset_disposables :: "addr \<Rightarrow> state \<Rightarrow> state" where
  "reset_disposables a s =
     upd a (\<lambda>ob. ob\<lparr>disposables := []\<rparr>)
       (s\<lparr>detached_disposables := (detached_disposables s)(a := detached_disposables s a @ [disposables (objs s a)])\<rparr>)"

subsection \<open>The methods that do not call out\<close>

definition register :: "addr \<Rightarrow> callback \<Rightarrow> state \<Rightarrow> state" where
  "register a cb s = upd a (\<lambda>ob. ob\<lparr>disposables := disposables ob @ [cb]\<rparr>) s"

definition registerInterval :: "addr \<Rightarrow> nat \<Rightarrow> state \<Rightarrow> nat \<times> state" where
  "registerInterval a ident s = (ident, upd a (\<lambda>ob. ob\<lparr>intervals := intervals ob @ [ident]\<rparr>) s)"

definition addChild :: "addr \<Rightarrow> addr \<Rightarrow> state \<Rightarrow> addr \<times> state" where
  "addChild a c s = (c, upd a (\<lambda>ob. ob\<lparr>children := children ob @ [c]\<rparr>) s)"

definition removeChild :: "addr \<Rightarrow> addr \<Rightarrow> state \<Rightarrow> addr \<times> state" where
  "removeChild a c s =
     (let index = indexOf (children (objs s a)) c
      in (c, if index \<noteq> - 1 then upd a (\<lambda>ob. ob\<lparr>children := splice1 (nat index) (children ob)\<rparr>) s else s))"

subsection \<open>load and unload\<close>

text \<open>
  The bodies of \<open>load\<close> and \<open>unload\<close>, over what the calls they make do: \<open>E\<close> runs a callback
  or a hook body, \<open>U\<close> is \<open>unload\<close> of a child. \<open>window.clearInterval\<close> belongs to the host
  and calls nothing back, so the loop over the timer handles is a fold.
\<close>

definition load_body :: "(callback \<Rightarrow> state \<Rightarrow> result) \<Rightarrow> addr \<Rightarrow> state \<Rightarrow> result" where
  "load_body E a s =
     (if loaded (objs s a) then Some (Returns s)
      else (let s1 = upd a (\<lambda>ob. ob\<lparr>loaded := True\<rparr>) s
            in E (onload_hook (objs s1 a)) (emit (Onload a) s1)))"

definition clear_intervals :: "addr \<Rightarrow> state \<Rightarrow> state" where
  "clear_intervals a s = fold (\<lambda>ident. emit (TimerCancel a ident)) (intervals (objs s a)) s"

definition unload_body ::
  "(addr \<Rightarrow> state \<Rightarrow> result) \<Rightarrow> (callback \<Rightarrow> state \<Rightarrow> result) \<Rightarrow> addr \<Rightarrow> state \<Rightarrow> result" where
  "unload_body U E a s =
     (if \<not> loaded (objs s a) then Some (Returns s)
      else
        andThen (forEach (children_array a (length (detached_children s a)))
                   (\<lambda>child s'. U child (emit (ChildUnload a child) s')) s) (\<lambda>s1.
        let s2 = reset_intervals a (clear_intervals a (reset_children a s1))
        in andThen (forEach (disposables_array a (length (detached_disposables s2 a)))
                      (\<lambda>cb s'. E cb (emit (Dispose a cb) s')) s2) (\<lambda>s3.
           let s4 = reset_disposables a s3
           in andThen (E (onunload_hook (objs s4 a)) (emit (Onunload a) s4)) (\<lambda>s5.
              Some (Returns (upd a (\<lambda>ob. ob\<lparr>loaded := False\<rparr>) s5))))))"

section \<open>Plugin\<close>

text \<open>
  The registration methods of \<open>Plugin\<close>. Of a command only its \<open>id\<close> is used; a view creator
  and a setting tab are handed to the host as they are. \<open>registerExtensions\<close> hands the host
  the caller's array, recorded in the trace with what it holds at the call, and registers a
  closure over the same array. The closure that \<open>addSettingTab\<close> registers reads
  \<open>this.manifest.id\<close> when it runs. The closure that \<open>loadCss\<close> registers holds the style
  element it created, which is known by the \<open>id\<close> and the text it was created with.
\<close>

definition addCommand :: "addr \<Rightarrow> string \<Rightarrow> state \<Rightarrow> state" where
  "addCommand a cid s =
     upd a (\<lambda>ob. ob\<lparr>registeredCommands := registeredCommands ob @ [cid]\<rparr>)
       (emit (Extern (CommandsRegister cid)) s)"

definition registerEvent :: "addr \<Rightarrow> nat \<Rightarrow> state \<Rightarrow> state" where
  "registerEvent a ref s = upd a (\<lambda>ob. ob\<lparr>registeredEvents := registeredEvents ob @ [ref]\<rparr>) s"

definition registerView :: "addr \<Rightarrow> string \<Rightarrow> state \<Rightarrow> state" where
  "registerView a ty s =
     register a [Host (WorkspaceUnregisterView ty)] (emit (Extern (WorkspaceRegisterView ty)) s)"

definition registerExtensions :: "addr \<Rightarrow> nat \<Rightarrow> string \<Rightarrow> state \<Rightarrow> state" where
  "registerExtensions a extensions viewType s =
     register a [UnregisterExtensions extensions]
       (emit (Extern (WorkspaceRegisterExtensions (arrays s extensions) viewType)) s)"

definition loadCss :: "addr \<Rightarrow> string \<Rightarrow> state \<Rightarrow> state" where
  "loadCss a css s =
     (let style_id = ''plugin-css-'' @ manifest_id (objs s a)
      in register a [Host (StyleRemove style_id css)] (emit (Extern (HeadAppendStyle style_id css)) s))"

definition addSettingTab :: "addr \<Rightarrow> nat \<Rightarrow> state \<Rightarrow> state" where
  "addSettingTab a tab s =
     register a [UnregisterSettingsTab a]
       (emit (Extern (PluginsRegisterSettingsTab (manifest_id (objs s a)) tab)) s)"

text \<open>\<open>Plugin.onunload\<close>: each \<open>forEach\<close> there calls the host only, and neither array is assigned.\<close>

definition plugin_onunload :: "addr \<Rightarrow> state \<Rightarrow> state" where
  "plugin_onunload a s =
     (let s1 = fold (\<lambda>cid. emit (Extern (CommandsUnregister cid))) (registeredCommands (objs s a)) s
      in fold (\<lambda>ref. emit (Extern (EventsOff ref))) (registeredEvents (objs s1 a)) s1)"

text \<open>The bodies of the two closures that read the heap when they run.\<close>

definition unregister_extensions :: "nat \<Rightarrow> state \<Rightarrow> state" where
  "unregister_extensions extensions s = emit (Extern (WorkspaceUnregisterExtensions (arrays s extensions))) s"

definition unregister_settings_tab :: "addr \<Rightarrow> state \<Rightarrow> state" where
  "unregister_settings_tab a s = emit (Extern (PluginsUnregisterSettingsTab (manifest_id (objs s a)))) s"

section \<open>Settings persistence\<close>

text \<open>
  The Tauri modules (\<open>@tauri-apps/api/path\<close>, \<open>@tauri-apps/plugin-fs\<close>) and \<open>JSON\<close> are external.
  Each of their operations may fail, which rejects the promise it returned or throws; a
  platform says which do. The files and the directories are in the state.
\<close>

record platform =
  import_path :: bool
  import_fs :: bool
  appConfigDir :: "string option"
  join :: "string list \<Rightarrow> string option"
  exists_fails :: "string \<Rightarrow> bool"
  readTextFile_fails :: "string \<Rightarrow> bool"
  mkdir_fails :: "string \<Rightarrow> bool"
  writeTextFile_fails :: "string \<Rightarrow> bool"
  JSON_parse :: "string \<Rightarrow> json option"
  JSON_stringify :: "json \<Rightarrow> string option"

text \<open>
  What an \<open>async\<close> function settles to: \<open>Inl\<close> is a rejection (an exception), with the state
  reached when it was thrown, \<open>Inr\<close> the value it resolves to.
\<close>

type_synonym 'a attempt = "(string \<times> state) + ('a \<times> state)"

definition await :: "'a attempt \<Rightarrow> ('a \<Rightarrow> state \<Rightarrow> 'b attempt) \<Rightarrow> 'b attempt" where
  "await r f = (case r of Inl e \<Rightarrow> Inl e | Inr (v, s) \<Rightarrow> f v s)"

definition try_catch :: "'a attempt \<Rightarrow> (string \<Rightarrow> state \<Rightarrow> 'a attempt) \<Rightarrow> 'a attempt" where
  "try_catch body handler = (case body of Inl (err, s) \<Rightarrow> handler err s | Inr r \<Rightarrow> Inr r)"

definition dynamic_import :: "bool \<Rightarrow> state \<Rightarrow> unit attempt" where
  "dynamic_import ok s = (if ok then Inr ((), s) else Inl (''import'', s))"

definition settle :: "string \<Rightarrow> 'a option \<Rightarrow> state \<Rightarrow> 'a attempt" where
  "settle what v s = (case v of None \<Rightarrow> Inl (what, s) | Some x \<Rightarrow> Inr (x, s))"

definition fs_exists :: "platform \<Rightarrow> string \<Rightarrow> state \<Rightarrow> bool attempt" where
  "fs_exists P path s =
     (if exists_fails P path then Inl (''exists'', s)
      else Inr (files s path \<noteq> None \<or> path \<in> set (dirs s), s))"

definition fs_readTextFile :: "platform \<Rightarrow> string \<Rightarrow> state \<Rightarrow> string attempt" where
  "fs_readTextFile P path s =
     (if readTextFile_fails P path then Inl (''readTextFile'', s) else settle ''readTextFile'' (files s path) s)"

definition fs_mkdir :: "platform \<Rightarrow> string \<Rightarrow> state \<Rightarrow> unit attempt" where
  "fs_mkdir P path s =
     (if mkdir_fails P path then Inl (''mkdir'', s) else Inr ((), s\<lparr>dirs := path # dirs s\<rparr>))"

definition fs_writeTextFile :: "platform \<Rightarrow> string \<Rightarrow> string \<Rightarrow> state \<Rightarrow> unit attempt" where
  "fs_writeTextFile P path content s =
     (if writeTextFile_fails P path then Inl (''writeTextFile'', s)
      else Inr ((), s\<lparr>files := (files s)(path \<mapsto> content)\<rparr>))"

definition console_error :: "string \<Rightarrow> state \<Rightarrow> state" where
  "console_error msg s = emit (Extern (ConsoleError msg)) s"

definition getSettingsDir :: "platform \<Rightarrow> addr \<Rightarrow> state \<Rightarrow> string attempt" where
  "getSettingsDir P a s =
     await (dynamic_import (import_path P) s) (\<lambda>_ s.
     await (settle ''appConfigDir'' (appConfigDir P) s) (\<lambda>configDir s.
     settle ''join'' (join P [configDir, ''plugins'', manifest_id (objs s a)]) s))"

definition getSettingsPath :: "platform \<Rightarrow> addr \<Rightarrow> state \<Rightarrow> string attempt" where
  "getSettingsPath P a s =
     await (dynamic_import (import_path P) s) (\<lambda>_ s.
     await (getSettingsDir P a s) (\<lambda>settingsDir s.
     settle ''join'' (join P [settingsDir, ''settings.json'']) s))"

definition ensureSettingsDir_try :: "platform \<Rightarrow> addr \<Rightarrow> state \<Rightarrow> unit attempt" where
  "ensureSettingsDir_try P a s =
     await (dynamic_import (import_path P) s) (\<lambda>_ s.
     await (dynamic_import (import_fs P) s) (\<lambda>_ s.
     await (settle ''appConfigDir'' (appConfigDir P) s) (\<lambda>configDir s.
     await (settle ''join'' (join P [configDir, ''plugins'']) s) (\<lambda>pluginsDir s.
     await (settle ''join'' (join P [pluginsDir, manifest_id (objs s a)]) s) (\<lambda>pluginDir s.
     await (fs_exists P pluginsDir s) (\<lambda>e1 s.
     await (if \<not> e1 then fs_mkdir P pluginsDir s else Inr ((), s)) (\<lambda>_ s.
     await (fs_exists P pluginDir s) (\<lambda>e2 s.
     if \<not> e2 then fs_mkdir P pluginDir s else Inr ((), s)))))))))"

definition ensureSettingsDir :: "platform \<Rightarrow> addr \<Rightarrow> state \<Rightarrow> unit attempt" where
  "ensureSettingsDir P a s =
     try_catch (ensureSettingsDir_try P a s) (\<lambda>error s.
       Inr ((), console_error (''Failed to create settings directory for '' @ manifest_id (objs s a) @ '':'') s))"

definition loadData_try :: "platform \<Rightarrow> addr \<Rightarrow> state \<Rightarrow> json attempt" where
  "loadData_try P a s =
     await (dynamic_import (import_fs P) s) (\<lambda>_ s.
     await (getSettingsPath P a s) (\<lambda>settingsPath s.
     await (fs_exists P settingsPath s) (\<lambda>e s.
     if e then
       await (fs_readTextFile P settingsPath s) (\<lambda>data s.
       await (settle ''JSON.parse'' (JSON_parse P data) s) (\<lambda>v s.
       Inr (v, upd a (\<lambda>ob. ob\<lparr>settingsData := v\<rparr>) s)))
     else Inr (JObj [], s))))"

definition loadData :: "platform \<Rightarrow> addr \<Rightarrow> state \<Rightarrow> json attempt" where
  "loadData P a s =
     try_catch (loadData_try P a s) (\<lambda>error s.
       Inr (JObj [], console_error (''Failed to load settings for '' @ manifest_id (objs s a) @ '':'') s))"

definition saveData_try :: "platform \<Rightarrow> addr \<Rightarrow> json \<Rightarrow> state \<Rightarrow> unit attempt" where
  "saveData_try P a data s =
     await (dynamic_import (import_fs P) s) (\<lambda>_ s.
     await (ensureSettingsDir P a s) (\<lambda>_ s.
     await (getSettingsPath P a s) (\<lambda>settingsPath s.
     await (settle ''JSON.stringify'' (JSON_stringify P data) (upd a (\<lambda>ob. ob\<lparr>settingsData := data\<rparr>) s)) (\<lambda>text s.
     fs_writeTextFile P settingsPath text s))))"

definition saveData :: "platform \<Rightarrow> addr \<Rightarrow> json \<Rightarrow> state \<Rightarrow> unit attempt" where
  "saveData P a data s =
     try_catch (saveData_try P a data s) (\<lambda>error s.
       Inr ((), console_error (''Failed to save settings for '' @ manifest_id (objs s a) @ '':'') s))"

text \<open>The lifecycle fields of every component are the same in both states.\<close>

definition same_lifecycle :: "state \<Rightarrow> state \<Rightarrow> bool" where
  "same_lifecycle s s' \<longleftrightarrow>
     (\<forall>b. loaded (objs s' b) = loaded (objs s b) \<and> children (objs s' b) = children (objs s b)
        \<and> intervals (objs s' b) = intervals (objs s b) \<and> disposables (objs s' b) = disposables (objs s b))"

fun settled_state :: "'a attempt \<Rightarrow> state" where
  "settled_state (Inl (err, s)) = s"
| "settled_state (Inr (v, s)) = s"

text \<open>However \<open>f\<close> settles, it leaves the lifecycle fields and the manifest as they were.\<close>

definition harmless :: "(state \<Rightarrow> 'a attempt) \<Rightarrow> bool" where
  "harmless f \<longleftrightarrow> (\<forall>s. same_lifecycle s (settled_state (f s))
      \<and> (\<forall>b. manifest_id (objs (settled_state (f s)) b) = manifest_id (objs s b)))"

section \<open>Running callbacks\<close>

text \<open>
  One call made by a callback, over \<open>load\<close> (\<open>L\<close>) and \<open>unload\<close> (\<open>U\<close>). A call of a method
  of a component is recorded before the method runs; the values the methods return are
  dropped, as a statement dropping them does.
\<close>

fun step :: "(addr \<Rightarrow> state \<Rightarrow> result) \<Rightarrow> (addr \<Rightarrow> state \<Rightarrow> result) \<Rightarrow> cmd \<Rightarrow> state \<Rightarrow> result" where
  "step L U (Host h) s = Some (Returns (emit (Extern h) s))"
| "step L U (Throw x) s = Some (Throws x s)"
| "step L U (CallLoad a) s = L a (emit (Invoke (CallLoad a)) s)"
| "step L U (CallUnload a) s = U a (emit (Invoke (CallUnload a)) s)"
| "step L U (CallRegister a cb) s =
     Some (Returns (register a cb (emit (Invoke (CallRegister a cb)) s)))"
| "step L U (CallRegisterInterval a ident) s =
     Some (Returns (snd (registerInterval a ident (emit (Invoke (CallRegisterInterval a ident)) s))))"
| "step L U (CallAddChild a c) s =
     Some (Returns (snd (addChild a c (emit (Invoke (CallAddChild a c)) s))))"
| "step L U (CallRemoveChild a c) s =
     Some (Returns (snd (removeChild a c (emit (Invoke (CallRemoveChild a c)) s))))"
| "step L U (CallAddCommand a cid) s =
     Some (Returns (addCommand a cid (emit (Invoke (CallAddCommand a cid)) s)))"
| "step L U (CallRegisterEvent a ref) s =
     Some (Returns (registerEvent a ref (emit (Invoke (CallRegisterEvent a ref)) s)))"
| "step L U (CallRegisterView a ty) s =
     Some (Returns (registerView a ty (emit (Invoke (CallRegisterView a ty)) s)))"
| "step L U (CallRegisterExtensions a extensions viewType) s =
     Some (Returns (registerExtensions a extensions viewType
                      (emit (Invoke (CallRegisterExtensions a extensions viewType)) s)))"
| "step L U (CallLoadCss a css) s =
     Some (Returns (loadCss a css (emit (Invoke (CallLoadCss a css)) s)))"
| "step L U (CallAddSettingTab a tab) s =
     Some (Returns (addSettingTab a tab (emit (Invoke (CallAddSettingTab a tab)) s)))"
| "step L U (PluginOnunload a) s = Some (Returns (plugin_onunload a s))"
| "step L U (UnregisterExtensions extensions) s = Some (Returns (unregister_extensions extensions s))"
| "step L U (UnregisterSettingsTab a) s = Some (Returns (unregister_settings_tab a s))"

text \<open>Running \<open>f\<close> on the elements of a list in order, up to the first that throws.\<close>

fun run :: "('a \<Rightarrow> state \<Rightarrow> result) \<Rightarrow> 'a list \<Rightarrow> state \<Rightarrow> result" where
  "run f [] s = Some (Returns s)"
| "run f (x # xs) s = andThen (f x s) (run f xs)"

text \<open>
  \<open>exec\<close> runs a callback, \<open>load\<close> and \<open>unload\<close> are the methods. The first argument bounds
  the depth of the calls: a call of depth \<open>Suc n\<close> makes its own calls at depth \<open>n\<close>, and at
  depth \<open>0\<close> nothing returns. A recursion that never ends (a component among its own
  descendants, a callback unloading the component that runs it) is \<open>None\<close> at every depth.
\<close>

fun exec :: "nat \<Rightarrow> callback \<Rightarrow> state \<Rightarrow> result"
  and load :: "nat \<Rightarrow> addr \<Rightarrow> state \<Rightarrow> result"
  and unload :: "nat \<Rightarrow> addr \<Rightarrow> state \<Rightarrow> result" where
  "exec 0 cb s = None"
| "exec (Suc n) cb s = run (step (load n) (unload n)) cb s"
| "load 0 a s = None"
| "load (Suc n) a s = load_body (exec n) a s"
| "unload 0 a s = None"
| "unload (Suc n) a s = unload_body (unload n) (exec n) a s"

section \<open>The five phases of unload, as the specification words them\<close>







section \<open>Calls back into a component\<close>

text \<open>
  The component that makes a recorded call. A host call has none, and a call made by a
  callback or by the body of a hook is not made by \<open>load\<close> or \<open>unload\<close> itself.
\<close>

fun actor :: "event \<Rightarrow> addr option" where
  "actor (ChildUnload a c) = Some a"
| "actor (TimerCancel a ident) = Some a"
| "actor (Dispose a cb) = Some a"
| "actor (Onload a) = Some a"
| "actor (Onunload a) = Some a"
| "actor (Extern h) = None"
| "actor (Invoke c) = None"

text \<open>The component whose method a command calls.\<close>

fun callee :: "cmd \<Rightarrow> addr option" where
  "callee (CallLoad a) = Some a"
| "callee (CallUnload a) = Some a"
| "callee (CallRegister a cb) = Some a"
| "callee (CallRegisterInterval a ident) = Some a"
| "callee (CallAddChild a c) = Some a"
| "callee (CallRemoveChild a c) = Some a"
| "callee (CallAddCommand a cid) = Some a"
| "callee (CallRegisterEvent a ref) = Some a"
| "callee (CallRegisterView a ty) = Some a"
| "callee (CallRegisterExtensions a extensions viewType) = Some a"
| "callee (CallLoadCss a css) = Some a"
| "callee (CallAddSettingTab a tab) = Some a"
| "callee (Host h) = None"
| "callee (Throw x) = None"
| "callee (PluginOnunload a) = None"
| "callee (UnregisterExtensions extensions) = None"
| "callee (UnregisterSettingsTab a) = None"

text \<open>
  A recorded call enters \<open>a\<close> when it is a call, by a callback or a hook body, of one of the
  methods \<open>load\<close>, \<open>unload\<close>, \<open>register\<close>, \<open>registerInterval\<close>, \<open>addChild\<close>, \<open>removeChild\<close>,
  \<open>addCommand\<close>, \<open>registerEvent\<close>, \<open>registerView\<close>, \<open>registerExtensions\<close>, \<open>loadCss\<close>,
  \<open>addSettingTab\<close> on \<open>a\<close>, or when a component calls \<open>unload()\<close> on \<open>a\<close> as one of its children.
  It unloads \<open>a\<close> when the method called on \<open>a\<close> is \<open>unload\<close>.
\<close>

fun enters :: "addr \<Rightarrow> event \<Rightarrow> bool" where
  "enters a (Invoke c) = (callee c = Some a)"
| "enters a (ChildUnload b c) = (c = a)"
| "enters a (TimerCancel b ident) = False"
| "enters a (Dispose b cb) = False"
| "enters a (Onload b) = False"
| "enters a (Onunload b) = False"
| "enters a (Extern h) = False"

fun unloads :: "addr \<Rightarrow> event \<Rightarrow> bool" where
  "unloads a (Invoke c) = (c = CallUnload a)"
| "unloads a (ChildUnload b c) = (c = a)"
| "unloads a (TimerCancel b ident) = False"
| "unloads a (Dispose b cb) = False"
| "unloads a (Onload b) = False"
| "unloads a (Onunload b) = False"
| "unloads a (Extern h) = False"

text \<open>
  The calls recorded between a state \<open>s\<close> and a later state \<open>s'\<close> of the same run, and a run
  from \<open>s\<close> to \<open>s'\<close> in which no recorded call is of a given kind.
\<close>

definition news :: "state \<Rightarrow> state \<Rightarrow> event list" where
  "news s s' = drop (length (trace s)) (trace s')"

definition without :: "(event \<Rightarrow> bool) \<Rightarrow> state \<Rightarrow> state \<Rightarrow> bool" where
  "without bad s s' \<longleftrightarrow> (\<forall>e\<in>set (news s s'). \<not> bad e)"

text \<open>The fields of \<open>a\<close> and the arrays detached from them are the same in both states.\<close>

definition same_at :: "addr \<Rightarrow> state \<Rightarrow> state \<Rightarrow> bool" where
  "same_at a s s' \<longleftrightarrow>
     objs s' a = objs s a \<and> detached_children s' a = detached_children s a
     \<and> detached_disposables s' a = detached_disposables s a"

text \<open>The calls in a list of recorded calls that \<open>a\<close> made itself.\<close>

definition calls_of :: "addr \<Rightarrow> event list \<Rightarrow> event list" where
  "calls_of a es = filter (\<lambda>e. actor e = Some a) es"

text \<open>The callbacks that \<open>a\<close> has invoked as disposables, in order, according to a list of recorded calls.\<close>

fun disposed :: "addr \<Rightarrow> event list \<Rightarrow> callback list" where
  "disposed a [] = []"
| "disposed a (Dispose b cb # es) = (if b = a then cb # disposed a es else disposed a es)"
| "disposed a (e # es) = disposed a es"

subsection \<open>What a run leaves as it was\<close>

text \<open>
  Three relations between the state before and the state after a run. \<open>carried_over\<close>: the
  hooks, the manifest and the extension arrays are the same, and the command and event
  records of every plugin have only grown. \<open>untouched a\<close>: the fields of \<open>a\<close> are the same and
  \<open>a\<close> has made no call. \<open>kept a\<close>: the disposables of \<open>a\<close> are still registered, in the same
  order and with what was registered since after them, none has been invoked by \<open>a\<close>, and if
  \<open>a\<close> was loaded it still is and has made no call.
\<close>

definition carried_over :: "state \<Rightarrow> state \<Rightarrow> bool" where
  "carried_over s s' \<longleftrightarrow>
     arrays s' = arrays s
     \<and> (\<forall>b. onload_hook (objs s' b) = onload_hook (objs s b)
           \<and> onunload_hook (objs s' b) = onunload_hook (objs s b)
           \<and> manifest_id (objs s' b) = manifest_id (objs s b)
           \<and> prefix (registeredCommands (objs s b)) (registeredCommands (objs s' b))
           \<and> prefix (registeredEvents (objs s b)) (registeredEvents (objs s' b)))"

definition untouched :: "addr \<Rightarrow> state \<Rightarrow> state \<Rightarrow> bool" where
  "untouched a s s' \<longleftrightarrow> same_at a s s' \<and> calls_of a (news s s') = []"

definition kept :: "addr \<Rightarrow> state \<Rightarrow> state \<Rightarrow> bool" where
  "kept a s s' \<longleftrightarrow>
     prefix (disposables (objs s a)) (disposables (objs s' a))
     \<and> disposed a (news s s') = []
     \<and> (loaded (objs s a) \<longrightarrow> loaded (objs s' a) \<and> calls_of a (news s s') = [])"

text \<open>
  \<open>grows f\<close>: a run of \<open>f\<close> only adds to the trace. \<open>upholds bad rel f\<close>: moreover, a run of
  \<open>f\<close> that records no call of the kind \<open>bad\<close> relates the state before and the state after
  by \<open>rel\<close>.
\<close>

definition grows :: "(state \<Rightarrow> result) \<Rightarrow> bool" where
  "grows f \<longleftrightarrow> (\<forall>s q. f s = Some q \<longrightarrow> prefix (trace s) (trace (state_of q)))"

definition upholds :: "(event \<Rightarrow> bool) \<Rightarrow> (state \<Rightarrow> state \<Rightarrow> bool) \<Rightarrow> (state \<Rightarrow> result) \<Rightarrow> bool" where
  "upholds bad rel f \<longleftrightarrow>
     grows f \<and> (\<forall>s q. f s = Some q \<longrightarrow> without bad s (state_of q) \<longrightarrow> rel s (state_of q))"

text \<open>
  What makes \<open>rel\<close> hold along every run without a call of the kind \<open>bad\<close>: it is reflexive
  and transitive, every method that is neither \<open>load\<close> nor \<open>unload\<close> establishes it, and so
  do the steps that \<open>load\<close> and \<open>unload\<close> make themselves, on the components on which they
  may run (\<open>okL\<close>, \<open>okU\<close>); a call of \<open>load\<close> or \<open>unload\<close> that is not of the kind \<open>bad\<close> is a call
  on such a component.
\<close>

definition framing ::
  "(event \<Rightarrow> bool) \<Rightarrow> (state \<Rightarrow> state \<Rightarrow> bool) \<Rightarrow> (addr \<Rightarrow> bool) \<Rightarrow> (addr \<Rightarrow> bool) \<Rightarrow> bool" where
  "framing bad rel okL okU \<longleftrightarrow>
     (\<forall>s. rel s s)
     \<and> (\<forall>s s' s''. prefix (trace s) (trace s') \<longrightarrow> prefix (trace s') (trace s'') \<longrightarrow>
           rel s s' \<longrightarrow> rel s' s'' \<longrightarrow> rel s s'')
     \<and> (\<forall>c s s'. step (\<lambda>_ _. None) (\<lambda>_ _. None) c s = Some (Returns s') \<longrightarrow> without bad s s' \<longrightarrow> rel s s')
     \<and> (\<forall>c s. \<not> bad (Invoke c) \<longrightarrow> rel s (emit (Invoke c) s))
     \<and> (\<forall>b. \<not> bad (Invoke (CallLoad b)) \<longrightarrow> okL b)
     \<and> (\<forall>b. \<not> bad (Invoke (CallUnload b)) \<longrightarrow> okU b)
     \<and> (\<forall>b c. \<not> bad (ChildUnload b c) \<longrightarrow> okU c)
     \<and> (\<forall>b s. okL b \<longrightarrow> \<not> loaded (objs s b) \<longrightarrow> rel s (emit (Onload b) (upd b (\<lambda>ob. ob\<lparr>loaded := True\<rparr>) s)))
     \<and> (\<forall>b c s. okU b \<longrightarrow> \<not> bad (ChildUnload b c) \<longrightarrow> rel s (emit (ChildUnload b c) s))
     \<and> (\<forall>b s. okU b \<longrightarrow> rel s (reset_intervals b (clear_intervals b (reset_children b s))))
     \<and> (\<forall>b cb s. okU b \<longrightarrow> rel s (emit (Dispose b cb) s))
     \<and> (\<forall>b s. okU b \<longrightarrow> rel s (emit (Onunload b) (reset_disposables b s)))
     \<and> (\<forall>b s. okU b \<longrightarrow> rel s (upd b (\<lambda>ob. ob\<lparr>loaded := False\<rparr>) s))"

section \<open>Example states\<close>

text \<open>Every component as its constructor leaves it, and states built from there.\<close>

definition fresh_obj :: plugin where
  "fresh_obj = \<lparr>loaded = False, children = [], intervals = [], disposables = [], onload_hook = [], onunload_hook = [],
     manifest_id = ''demo'', registeredCommands = [], registeredEvents = [], settingsData = JObj []\<rparr>"

definition fresh :: state where
  "fresh = \<lparr>objs = (\<lambda>_. fresh_obj), detached_children = (\<lambda>_. []), detached_disposables = (\<lambda>_. []),
     arrays = (\<lambda>_. []), files = (\<lambda>_. None), dirs = [], trace = []\<rparr>"

text \<open>A loaded root with two loaded children, a timer and a disposable.\<close>

definition demo_tree :: state where
  "demo_tree =
     upd 0 (\<lambda>ob. ob\<lparr>loaded := True, children := [1, 2], intervals := [7],
                     disposables := [[Host (Effect ''cleanup-ran'')]]\<rparr>)
    (upd 1 (\<lambda>ob. ob\<lparr>loaded := True, onunload_hook := [Host (Effect ''bye 1'')]\<rparr>)
    (upd 2 (\<lambda>ob. ob\<lparr>loaded := True\<rparr>) fresh))"










text \<open>A component whose initialization hook calls \<open>load()\<close> on the component itself.\<close>

definition demo_reentrant :: state where
  "demo_reentrant =
     upd 0 (\<lambda>ob. ob\<lparr>onload_hook := [CallLoad 0, CallAddChild 0 1, CallRegister 0 [Host (Effect ''cleanup-ran'')],
                                      CallLoad 0]\<rparr>) fresh"

text \<open>
  A component whose initialization hook unloads the component; and a component whose
  initialization hook unloads a loaded component 1, the teardown hook of which unloads the
  component, and then calls \<open>load()\<close> on the component itself.
\<close>

definition demo_reload :: state where
  "demo_reload = upd 0 (\<lambda>ob. ob\<lparr>onload_hook := [Host (Effect ''init''), CallUnload 0]\<rparr>) fresh"

definition demo_toggle :: state where
  "demo_toggle =
     upd 0 (\<lambda>ob. ob\<lparr>onload_hook := [Host (Effect ''init''), CallUnload 1, CallLoad 0]\<rparr>)
    (upd 1 (\<lambda>ob. ob\<lparr>loaded := True, onunload_hook := [CallUnload 0]\<rparr>) fresh)"

text \<open>A component that already has the component 5 as a child.\<close>

definition demo_dup :: state where
  "demo_dup = snd (addChild 0 5 fresh)"

text \<open>
  The plugin of the README: its \<open>onload\<close> adds a command, and its \<open>onunload\<close> overrides
  \<open>Plugin.onunload\<close> without calling it. And a plugin that inherits \<open>Plugin.onunload\<close>.
\<close>

definition readme_plugin :: state where
  "readme_plugin =
     upd 0 (\<lambda>ob. ob\<lparr>onload_hook := [Host (Effect ''Plugin loaded!''), CallAddCommand 0 ''my-command''],
                     onunload_hook := [Host (Effect ''Plugin unloaded!'')]\<rparr>) fresh"

definition demo_plugin :: state where
  "demo_plugin =
     upd 0 (\<lambda>ob. ob\<lparr>onload_hook := [CallAddCommand 0 ''my-command'', CallRegisterEvent 0 3,
                                      CallRegisterView 0 ''my-view''],
                     onunload_hook := [PluginOnunload 0]\<rparr>) fresh"

text \<open>
  A state in which the array 7 holds one file extension, and the same state after the owner
  of the array has added a second one.
\<close>

definition demo_extensions :: state where
  "demo_extensions = fresh\<lparr>arrays := (arrays fresh)(7 := [''md''])\<rparr>"

definition push_extension :: "state \<Rightarrow> state" where
  "push_extension s = s\<lparr>arrays := (arrays s)(7 := arrays s 7 @ [''txt''])\<rparr>"

text \<open>
  A platform on which every operation works, and states with and without a settings file
  for the plugin \<open>demo\<close>; \<open>JSON.parse\<close> accepts only the text \<open>{}\<close>.
\<close>

definition demo_platform :: platform where
  "demo_platform = \<lparr>import_path = True, import_fs = True, appConfigDir = Some ''cfg'',
     join = (\<lambda>xs. Some (foldr (\<lambda>x acc. if acc = [] then x else x @ ''/'' @ acc) xs [])),
     exists_fails = (\<lambda>_. False), readTextFile_fails = (\<lambda>_. False),
     mkdir_fails = (\<lambda>_. False), writeTextFile_fails = (\<lambda>_. False),
     JSON_parse = (\<lambda>x. if x = ''{}'' then Some (JObj []) else None),
     JSON_stringify = (\<lambda>x. Some ''{}'')\<rparr>"

definition broken_settings :: state where
  "broken_settings = fresh\<lparr>files := (files fresh)(''cfg/plugins/demo/settings.json'' \<mapsto> ''{bad'')\<rparr>"

section \<open>Basic facts\<close>

lemmas eval_simps = fresh_def fresh_obj_def upd_def emit_def unload_body_def load_body_def forEach_def
    children_array_def disposables_array_def reset_children_def reset_intervals_def
    reset_disposables_def clear_intervals_def

lemmas method_simps = register_def registerInterval_def addChild_def removeChild_def addCommand_def
    registerEvent_def registerView_def registerExtensions_def loadCss_def addSettingTab_def
    unregister_extensions_def unregister_settings_tab_def

lemma andThen_simps [simp]:
  "andThen None f = None"
  "andThen (Some (Returns s)) f = f s"
  "andThen (Some (Throws x s)) f = Some (Throws x s)"
  by (simp_all add: andThen_def)

lemma andThen_Some:
  "andThen r f = Some q \<Longrightarrow>
     (\<exists>x s. r = Some (Throws x s) \<and> q = Throws x s) \<or> (\<exists>s. r = Some (Returns s) \<and> f s = Some q)"
  by (auto simp: andThen_def split: option.splits outcome.splits)

lemma andThen_Returns:
  "andThen r f = Some (Returns s') \<Longrightarrow> \<exists>s0. r = Some (Returns s0) \<and> f s0 = Some (Returns s')"
  by (auto simp: andThen_def split: option.splits outcome.splits)


lemma andThen_cong_Returns:
  "r = r' \<Longrightarrow> (\<And>s. r' = Some (Returns s) \<Longrightarrow> f s = g s) \<Longrightarrow> andThen r f = andThen r' g"
  by (auto simp: andThen_def split: option.splits outcome.splits)

lemma fold_emit: "fold (\<lambda>x. emit (g x)) xs s = s\<lparr>trace := trace s @ map g xs\<rparr>"
  by (induction xs arbitrary: s) (simp_all add: emit_def)

lemma clear_intervals_eq: "clear_intervals a s = s\<lparr>trace := trace s @ map (TimerCancel a) (intervals (objs s a))\<rparr>"
  by (simp add: clear_intervals_def fold_emit)

lemma plugin_onunload_eq:
  "plugin_onunload a s = s\<lparr>trace := trace s @ map (\<lambda>cid. Extern (CommandsUnregister cid)) (registeredCommands (objs s a))
       @ map (\<lambda>ref. Extern (EventsOff ref)) (registeredEvents (objs s a))\<rparr>"
  by (simp add: plugin_onunload_def Let_def fold_emit)

lemma objs_upd [simp]: "objs (upd a f s) = (objs s)(a := f (objs s a))"
  by (simp add: upd_def)

lemma objs_resets [simp]:
  "objs (reset_children a s) = (objs s)(a := (objs s a)\<lparr>children := []\<rparr>)"
  "objs (reset_intervals a s) = (objs s)(a := (objs s a)\<lparr>intervals := []\<rparr>)"
  "objs (reset_disposables a s) = (objs s)(a := (objs s a)\<lparr>disposables := []\<rparr>)"
  "objs (clear_intervals a s) = objs s"
  "objs (emit e s) = objs s"
  by (simp_all add: reset_children_def reset_intervals_def reset_disposables_def clear_intervals_eq upd_def emit_def)

lemma trace_resets [simp]:
  "trace (reset_children a s) = trace s"
  "trace (reset_intervals a s) = trace s"
  "trace (reset_disposables a s) = trace s"
  "trace (clear_intervals a s) = trace s @ map (TimerCancel a) (intervals (objs s a))"
  "trace (emit e s) = trace s @ [e]"
  "trace (upd a f s) = trace s"
  by (simp_all add: reset_children_def reset_intervals_def reset_disposables_def clear_intervals_eq upd_def emit_def)

lemma detached_resets [simp]:
  "detached_children (reset_children a s) = (detached_children s)(a := detached_children s a @ [children (objs s a)])"
  "detached_children (reset_intervals a s) = detached_children s"
  "detached_children (reset_disposables a s) = detached_children s"
  "detached_children (clear_intervals a s) = detached_children s"
  "detached_children (emit e s) = detached_children s"
  "detached_children (upd a f s) = detached_children s"
  "detached_disposables (reset_children a s) = detached_disposables s"
  "detached_disposables (reset_intervals a s) = detached_disposables s"
  "detached_disposables (reset_disposables a s) = (detached_disposables s)(a := detached_disposables s a @ [disposables (objs s a)])"
  "detached_disposables (clear_intervals a s) = detached_disposables s"
  "detached_disposables (emit e s) = detached_disposables s"
  "detached_disposables (upd a f s) = detached_disposables s"
  by (simp_all add: reset_children_def reset_intervals_def reset_disposables_def clear_intervals_eq upd_def emit_def)

lemma arrays_resets [simp]:
  "arrays (reset_children a s) = arrays s"
  "arrays (reset_intervals a s) = arrays s"
  "arrays (reset_disposables a s) = arrays s"
  "arrays (clear_intervals a s) = arrays s"
  "arrays (emit e s) = arrays s"
  "arrays (upd a f s) = arrays s"
  by (simp_all add: reset_children_def reset_intervals_def reset_disposables_def clear_intervals_eq upd_def emit_def)


subsection \<open>The calls recorded during a run\<close>

lemma news_self [simp]: "news s s = []"
  by (simp add: news_def)

lemma news_eq: "trace s' = trace s @ es \<Longrightarrow> news s s' = es"
  by (simp add: news_def)

lemma prefix_news: "prefix (trace s) (trace s') \<Longrightarrow> trace s' = trace s @ news s s'"
  by (auto simp: prefix_def news_def)

lemma news_trans:
  assumes "prefix (trace s) (trace s')" and "prefix (trace s') (trace s'')"
  shows "news s s'' = news s s' @ news s' s''"
proof -
  from assms obtain es es' where "trace s' = trace s @ es" "trace s'' = trace s' @ es'"
    by (auto simp: prefix_def)
  then show ?thesis by (simp add: news_def)
qed

lemma without_self [simp]: "without bad s s"
  by (simp add: without_def)

lemma without_trans:
  assumes "prefix (trace s) (trace s')" and "prefix (trace s') (trace s'')"
  shows "without bad s s'' \<longleftrightarrow> without bad s s' \<and> without bad s' s''"
  using news_trans [OF assms] by (auto simp: without_def)

lemma without_eq: "trace s' = trace s @ es \<Longrightarrow> without bad s s' \<longleftrightarrow> (\<forall>e\<in>set es. \<not> bad e)"
  by (simp add: without_def news_eq)

lemma prefix_trace_trans:
  "prefix (trace s) (trace s') \<Longrightarrow> prefix (trace s') (trace s'') \<Longrightarrow> prefix (trace s) (trace s'')"
  by (rule prefix_order.order_trans)

subsection \<open>Runs that leave a relation in place\<close>

lemma growsD: "grows f \<Longrightarrow> f s = Some q \<Longrightarrow> prefix (trace s) (trace (state_of q))"
  by (simp add: grows_def)

lemma growsI: "(\<And>s q. f s = Some q \<Longrightarrow> prefix (trace s) (trace (state_of q))) \<Longrightarrow> grows f"
  by (simp add: grows_def)

lemma upholds_grows: "upholds bad rel f \<Longrightarrow> grows f"
  by (simp add: upholds_def)

lemma upholdsD:
  "upholds bad rel f \<Longrightarrow> f s = Some q \<Longrightarrow> without bad s (state_of q) \<Longrightarrow> rel s (state_of q)"
  by (simp add: upholds_def)

lemma upholdsI:
  "grows f \<Longrightarrow> (\<And>s q. f s = Some q \<Longrightarrow> without bad s (state_of q) \<Longrightarrow> rel s (state_of q))
     \<Longrightarrow> upholds bad rel f"
  by (simp add: upholds_def)

lemma grows_upholds: "grows f \<Longrightarrow> upholds bad (\<lambda>_ _. True) f"
  by (simp add: upholds_def)

lemma upholds_None [simp]: "upholds bad rel (\<lambda>s. None)"
  by (simp add: upholds_def grows_def)

lemma framing_top: "framing bad (\<lambda>_ _. True) (\<lambda>_. True) (\<lambda>_. True)"
  by (simp add: framing_def)

lemma framingD:
  assumes "framing bad rel okL okU"
  shows "rel s s"
    and "prefix (trace s) (trace s') \<Longrightarrow> prefix (trace s') (trace s'') \<Longrightarrow> rel s s' \<Longrightarrow> rel s' s'' \<Longrightarrow> rel s s''"
    and "step (\<lambda>_ _. None) (\<lambda>_ _. None) c s = Some (Returns s') \<Longrightarrow> without bad s s' \<Longrightarrow> rel s s'"
    and "\<not> bad (Invoke c) \<Longrightarrow> rel s (emit (Invoke c) s)"
    and "\<not> bad (Invoke (CallLoad b)) \<Longrightarrow> okL b"
    and "\<not> bad (Invoke (CallUnload b)) \<Longrightarrow> okU b"
    and "\<not> bad (ChildUnload b d) \<Longrightarrow> okU d"
    and "okL b \<Longrightarrow> \<not> loaded (objs s b) \<Longrightarrow> rel s (emit (Onload b) (upd b (\<lambda>ob. ob\<lparr>loaded := True\<rparr>) s))"
    and "okU b \<Longrightarrow> \<not> bad (ChildUnload b d) \<Longrightarrow> rel s (emit (ChildUnload b d) s)"
    and "okU b \<Longrightarrow> rel s (reset_intervals b (clear_intervals b (reset_children b s)))"
    and "okU b \<Longrightarrow> rel s (emit (Dispose b cb) s)"
    and "okU b \<Longrightarrow> rel s (emit (Onunload b) (reset_disposables b s))"
    and "okU b \<Longrightarrow> rel s (upd b (\<lambda>ob. ob\<lparr>loaded := False\<rparr>) s)"
  using assms by (simp_all add: framing_def)

lemma grows_andThen:
  assumes "grows f" and "grows g"
  shows "grows (\<lambda>s. andThen (f s) g)"
proof (rule growsI)
  fix s q assume e: "andThen (f s) g = Some q"
  from andThen_Some [OF e] show "prefix (trace s) (trace (state_of q))"
  proof (elim disjE exE conjE)
    fix x s' assume 1: "f s = Some (Throws x s')" and 2: "q = Throws x s'"
    from growsD [OF assms(1) 1] 2 show ?thesis by simp
  next
    fix s' assume 1: "f s = Some (Returns s')" and 2: "g s' = Some q"
    from growsD [OF assms(1) 1] growsD [OF assms(2) 2] show ?thesis
      by (auto intro: prefix_trace_trans)
  qed
qed

lemma upholds_andThen:
  assumes fr: "framing bad rel okL okU" and f: "upholds bad rel f" and g: "upholds bad rel g"
  shows "upholds bad rel (\<lambda>s. andThen (f s) g)"
proof (rule upholdsI)
  show "grows (\<lambda>s. andThen (f s) g)"
    by (intro grows_andThen upholds_grows [OF f] upholds_grows [OF g])
next
  fix s q assume e: "andThen (f s) g = Some q" and w: "without bad s (state_of q)"
  from andThen_Some [OF e] show "rel s (state_of q)"
  proof (elim disjE exE conjE)
    fix x s' assume 1: "f s = Some (Throws x s')" and 2: "q = Throws x s'"
    from upholdsD [OF f 1] w 2 show ?thesis by simp
  next
    fix s' assume 1: "f s = Some (Returns s')" and 2: "g s' = Some q"
    have p1: "prefix (trace s) (trace s')" using growsD [OF upholds_grows [OF f] 1] by simp
    have p2: "prefix (trace s') (trace (state_of q))" using growsD [OF upholds_grows [OF g] 2] .
    from w without_trans [OF p1 p2] have "without bad s s'" "without bad s' (state_of q)" by auto
    with upholdsD [OF f 1] upholdsD [OF g 2] have "rel s s'" "rel s' (state_of q)" by auto
    with framingD(2) [OF fr p1 p2] show ?thesis by blast
  qed
qed

lemma upholds_pure:
  assumes "\<And>s. prefix (trace s) (trace (g s))" and "\<And>s. without bad s (g s) \<Longrightarrow> rel s (g s)"
  shows "upholds bad rel (\<lambda>s. Some (Returns (g s)))"
  using assms by (auto simp: upholds_def grows_def)

lemma upholds_after_emit:
  assumes fr: "framing bad rel okL okU" and gf: "grows f"
      and r: "\<not> bad e \<Longrightarrow> upholds bad rel f" and e: "\<And>s. \<not> bad e \<Longrightarrow> rel s (emit e s)"
  shows "upholds bad rel (\<lambda>s. f (emit e s))"
proof (rule upholdsI)
  show "grows (\<lambda>s. f (emit e s))"
  proof (rule growsI)
    fix s q assume "f (emit e s) = Some q"
    from growsD [OF gf this] show "prefix (trace s) (trace (state_of q))"
      by (auto simp: prefix_def)
  qed
next
  fix s q assume 1: "f (emit e s) = Some q" and w: "without bad s (state_of q)"
  have p1: "prefix (trace s) (trace (emit e s))" by simp
  have p2: "prefix (trace (emit e s)) (trace (state_of q))" by (rule growsD [OF gf 1])
  from w without_trans [OF p1 p2] have w1: "without bad s (emit e s)" and w2: "without bad (emit e s) (state_of q)"
    by auto
  from w1 have nb: "\<not> bad e" by (simp add: without_eq [where es = "[e]"])
  from upholdsD [OF r [OF nb] 1 w2] have "rel (emit e s) (state_of q)" .
  with framingD(2) [OF fr p1 p2] e [OF nb] show "rel s (state_of q)" by blast
qed

lemma upholds_run:
  assumes fr: "framing bad rel okL okU" and f: "\<And>x. upholds bad rel (f x)"
  shows "upholds bad rel (run f xs)"
proof (induction xs)
  case Nil
  show ?case by (rule upholdsI) (auto simp: grows_def framingD(1) [OF fr])
next
  case (Cons x xs)
  have "upholds bad rel (\<lambda>s. andThen (f x s) (run f xs))"
    by (rule upholds_andThen [OF fr f Cons.IH])
  then show ?case by (simp add: upholds_def grows_def)
qed

lemma upholds_forEachFrom:
  assumes fr: "framing bad rel okL okU" and f: "\<And>x. upholds bad rel (f x)"
  shows "upholds bad rel (forEachFrom arr f k m)"
proof (induction m arbitrary: k)
  case 0
  show ?case by (rule upholdsI) (auto simp: grows_def framingD(1) [OF fr])
next
  case (Suc m)
  have a: "upholds bad rel (\<lambda>s'. andThen (f x s') (forEachFrom arr f (Suc k) m))" for x
    by (rule upholds_andThen [OF fr f Suc])
  show ?case
  proof (rule upholdsI)
    show "grows (forEachFrom arr f k (Suc m))"
    proof (rule growsI)
      fix s q assume e: "forEachFrom arr f k (Suc m) s = Some q"
      show "prefix (trace s) (trace (state_of q))"
      proof (cases "k < length (arr s)")
        case True
        with e growsD [OF upholds_grows [OF a [of "arr s ! k"]], of s q] show ?thesis by simp
      next
        case False
        with e growsD [OF upholds_grows [OF Suc [of "Suc k"]], of s q] show ?thesis by simp
      qed
    qed
  next
    fix s q assume e: "forEachFrom arr f k (Suc m) s = Some q" and w: "without bad s (state_of q)"
    show "rel s (state_of q)"
    proof (cases "k < length (arr s)")
      case True
      with e upholdsD [OF a [of "arr s ! k"], of s q] w show ?thesis by simp
    next
      case False
      with e upholdsD [OF Suc [of "Suc k"], of s q] w show ?thesis by simp
    qed
  qed
qed

lemma upholds_forEach:
  assumes fr: "framing bad rel okL okU" and f: "\<And>x. upholds bad rel (f x)"
  shows "upholds bad rel (forEach arr f)"
  using upholds_forEachFrom [OF fr f, where arr = arr and k = 0] by (simp add: upholds_def grows_def forEach_def)

lemma trace_methods [simp]:
  "trace (register a cb s) = trace s"
  "trace (snd (registerInterval a i s)) = trace s"
  "trace (snd (addChild a c s)) = trace s"
  "trace (snd (removeChild a c s)) = trace s"
  "trace (addCommand a cid s) = trace s @ [Extern (CommandsRegister cid)]"
  "trace (registerEvent a ref s) = trace s"
  "trace (registerView a ty s) = trace s @ [Extern (WorkspaceRegisterView ty)]"
  "trace (registerExtensions a r vt s) = trace s @ [Extern (WorkspaceRegisterExtensions (arrays s r) vt)]"
  "trace (loadCss a css s) = trace s @ [Extern (HeadAppendStyle (''plugin-css-'' @ manifest_id (objs s a)) css)]"
  "trace (addSettingTab a tab s) = trace s @ [Extern (PluginsRegisterSettingsTab (manifest_id (objs s a)) tab)]"
  "trace (plugin_onunload a s) = trace s @ map (\<lambda>cid. Extern (CommandsUnregister cid)) (registeredCommands (objs s a))
       @ map (\<lambda>ref. Extern (EventsOff ref)) (registeredEvents (objs s a))"
  "trace (unregister_extensions r s) = trace s @ [Extern (WorkspaceUnregisterExtensions (arrays s r))]"
  "trace (unregister_settings_tab a s) = trace s @ [Extern (PluginsUnregisterSettingsTab (manifest_id (objs s a)))]"
  by (simp_all add: method_simps Let_def plugin_onunload_eq)

lemma step_prim_Throws:
  "step (\<lambda>_ _. None) (\<lambda>_ _. None) c s = Some (Throws x s') \<Longrightarrow> s' = s"
  by (cases c) simp_all

lemma step_prim_grows: "grows (step (\<lambda>_ _. None) (\<lambda>_ _. None) c)"
  by (rule growsI, cases c) auto

lemma upholds_prim:
  assumes fr: "framing bad rel okL okU"
  shows "upholds bad rel (step (\<lambda>_ _. None) (\<lambda>_ _. None) c)"
proof (rule upholdsI [OF step_prim_grows])
  fix s q assume e: "step (\<lambda>_ _. None) (\<lambda>_ _. None) c s = Some q" and w: "without bad s (state_of q)"
  show "rel s (state_of q)"
  proof (cases q)
    case (Returns s')
    with e w framingD(3) [OF fr, of c s s'] show ?thesis by simp
  next
    case (Throws x s')
    with e step_prim_Throws [of c s x s'] framingD(1) [OF fr] show ?thesis by simp
  qed
qed

lemma upholds_step:
  assumes fr: "framing bad rel okL okU"
      and gL: "\<And>b. grows (L b)" and gU: "\<And>b. grows (U b)"
      and rL: "\<And>b. okL b \<Longrightarrow> upholds bad rel (L b)" and rU: "\<And>b. okU b \<Longrightarrow> upholds bad rel (U b)"
  shows "upholds bad rel (step L U c)"
proof -
  have prim: "upholds bad rel (step L U c)" if "step L U c = step (\<lambda>_ _. None) (\<lambda>_ _. None) c"
    using upholds_prim [OF fr, of c] that by simp
  show ?thesis
  proof (cases c)
    case (CallLoad b)
    have "upholds bad rel (\<lambda>s. L b (emit (Invoke (CallLoad b)) s))"
      by (rule upholds_after_emit [OF fr gL]) (auto intro: rL framingD(5) [OF fr] framingD(4) [OF fr])
    with CallLoad show ?thesis by (simp add: upholds_def grows_def)
  next
    case (CallUnload b)
    have "upholds bad rel (\<lambda>s. U b (emit (Invoke (CallUnload b)) s))"
      by (rule upholds_after_emit [OF fr gU]) (auto intro: rU framingD(6) [OF fr] framingD(4) [OF fr])
    with CallUnload show ?thesis by (simp add: upholds_def grows_def)
  qed (rule prim, simp add: fun_eq_iff)+
qed

lemma upholds_load_body:
  assumes fr: "framing bad rel okL okU" and E: "\<And>cb. upholds bad rel (E cb)" and ok: "okL a"
  shows "upholds bad rel (load_body E a)"
proof (rule upholdsI)
  show "grows (load_body E a)"
  proof (rule growsI)
    fix s q assume e: "load_body E a s = Some q"
    show "prefix (trace s) (trace (state_of q))"
    proof (cases "loaded (objs s a)")
      case True
      with e show ?thesis by (auto simp: load_body_def)
    next
      case False
      with e have "E (onload_hook (objs s a)) (emit (Onload a) (upd a (\<lambda>ob. ob\<lparr>loaded := True\<rparr>) s)) = Some q"
        by (simp add: load_body_def Let_def)
      from growsD [OF upholds_grows [OF E] this] show ?thesis by (auto simp: prefix_def)
    qed
  qed
next
  fix s q assume e: "load_body E a s = Some q" and w: "without bad s (state_of q)"
  show "rel s (state_of q)"
  proof (cases "loaded (objs s a)")
    case True
    with e framingD(1) [OF fr] show ?thesis by (auto simp: load_body_def)
  next
    case False
    let ?s0 = "emit (Onload a) (upd a (\<lambda>ob. ob\<lparr>loaded := True\<rparr>) s)"
    from False e have 1: "E (onload_hook (objs s a)) ?s0 = Some q"
      by (simp add: load_body_def Let_def)
    have p1: "prefix (trace s) (trace ?s0)" by simp
    have p2: "prefix (trace ?s0) (trace (state_of q))" by (rule growsD [OF upholds_grows [OF E] 1])
    from w without_trans [OF p1 p2] have "without bad ?s0 (state_of q)" by simp
    from upholdsD [OF E 1 this] have "rel ?s0 (state_of q)" .
    with framingD(2) [OF fr p1 p2] framingD(8) [OF fr ok False] show ?thesis by blast
  qed
qed

lemma upholds_unload_body:
  assumes fr: "framing bad rel okL okU"
      and gU: "\<And>c. grows (U c)"
      and U: "\<And>c. okU c \<Longrightarrow> upholds bad rel (U c)"
      and E: "\<And>cb. upholds bad rel (E cb)"
      and ok: "okU a"
  shows "upholds bad rel (unload_body U E a)"
proof -
  let ?final = "\<lambda>s5. Some (Returns (upd a (\<lambda>ob. ob\<lparr>loaded := False\<rparr>) s5))"
  let ?hook = "\<lambda>s3. E (onunload_hook (objs (reset_disposables a s3) a)) (emit (Onunload a) (reset_disposables a s3))"
  let ?disp = "\<lambda>g. forEach (disposables_array a g) (\<lambda>cb s'. E cb (emit (Dispose a cb) s'))"
  let ?chil = "\<lambda>g. forEach (children_array a g) (\<lambda>child s'. U child (emit (ChildUnload a child) s'))"
  let ?mid = "\<lambda>s1. reset_intervals a (clear_intervals a (reset_children a s1))"
  have final: "upholds bad rel ?final"
    by (rule upholds_pure) (simp_all add: framingD(13) [OF fr ok])
  have hook: "upholds bad rel ?hook"
  proof (rule upholdsI)
    show "grows ?hook"
    proof (rule growsI)
      fix s3 q assume "?hook s3 = Some q"
      from growsD [OF upholds_grows [OF E] this] show "prefix (trace s3) (trace (state_of q))"
        by (auto simp: prefix_def)
    qed
  next
    fix s3 q assume e: "?hook s3 = Some q" and w: "without bad s3 (state_of q)"
    let ?s4 = "emit (Onunload a) (reset_disposables a s3)"
    have p1: "prefix (trace s3) (trace ?s4)" by simp
    have p2: "prefix (trace ?s4) (trace (state_of q))" by (rule growsD [OF upholds_grows [OF E] e])
    from w without_trans [OF p1 p2] have "without bad ?s4 (state_of q)" by simp
    from upholdsD [OF E e this] have "rel ?s4 (state_of q)" .
    with framingD(2) [OF fr p1 p2] framingD(12) [OF fr ok] show "rel s3 (state_of q)" by blast
  qed
  have tail3: "upholds bad rel (\<lambda>s3. andThen (?hook s3) ?final)"
    by (rule upholds_andThen [OF fr hook final])
  have disp: "upholds bad rel (?disp g)" for g
  proof (rule upholds_forEach [OF fr])
    show "upholds bad rel (\<lambda>s'. E cb (emit (Dispose a cb) s'))" for cb
      by (rule upholds_after_emit [OF fr upholds_grows [OF E] E]) (rule framingD(11) [OF fr ok])
  qed
  have chil: "upholds bad rel (?chil g)" for g
  proof (rule upholds_forEach [OF fr])
    show "upholds bad rel (\<lambda>s'. U child (emit (ChildUnload a child) s'))" for child
    proof (rule upholds_after_emit [OF fr gU])
      show "upholds bad rel (U child)" if "\<not> bad (ChildUnload a child)"
        by (rule U) (rule framingD(7) [OF fr that])
      show "rel s (emit (ChildUnload a child) s)" if "\<not> bad (ChildUnload a child)" for s
        by (rule framingD(9) [OF fr ok that])
    qed
  qed
  have tail1: "upholds bad rel (\<lambda>s1. andThen (?disp (length (detached_disposables (?mid s1) a)) (?mid s1))
                 (\<lambda>s3. andThen (?hook s3) ?final))"
  proof -
    have both: "prefix (trace s1) (trace (state_of q)) \<and> (without bad s1 (state_of q) \<longrightarrow> rel s1 (state_of q))"
      if e: "andThen (?disp (length (detached_disposables (?mid s1) a)) (?mid s1))
                 (\<lambda>s3. andThen (?hook s3) ?final) = Some q" for s1 q
    proof -
      let ?g = "length (detached_disposables (?mid s1) a)"
      have r: "upholds bad rel (\<lambda>s. andThen (?disp ?g s) (\<lambda>s3. andThen (?hook s3) ?final))"
        by (rule upholds_andThen [OF fr disp tail3])
      have p1: "prefix (trace s1) (trace (?mid s1))" by simp
      have p2: "prefix (trace (?mid s1)) (trace (state_of q))"
        using growsD [OF upholds_grows [OF r], of "?mid s1" q] e by simp
      have "rel s1 (state_of q)" if w: "without bad s1 (state_of q)"
      proof -
        from w without_trans [OF p1 p2] have "without bad (?mid s1) (state_of q)" by simp
        with upholdsD [OF r, of "?mid s1" q] e have "rel (?mid s1) (state_of q)" by simp
        with framingD(2) [OF fr p1 p2] framingD(10) [OF fr ok] show ?thesis by blast
      qed
      with prefix_trace_trans [OF p1 p2] show ?thesis by blast
    qed
    show ?thesis by (rule upholdsI [OF growsI]) (use both in blast)+
  qed
  have all: "upholds bad rel (\<lambda>s. andThen (?chil g s)
          (\<lambda>s1. andThen (?disp (length (detached_disposables (?mid s1) a)) (?mid s1))
                 (\<lambda>s3. andThen (?hook s3) ?final)))" for g
    by (rule upholds_andThen [OF fr chil tail1])
  have eq: "unload_body U E a s = (if \<not> loaded (objs s a) then Some (Returns s)
       else andThen (?chil (length (detached_children s a)) s)
          (\<lambda>s1. andThen (?disp (length (detached_disposables (?mid s1) a)) (?mid s1))
                 (\<lambda>s3. andThen (?hook s3) ?final)))" for s
    by (simp add: unload_body_def Let_def)
  show ?thesis
  proof (rule upholdsI [OF growsI])
    fix s q assume e: "unload_body U E a s = Some q"
    show "prefix (trace s) (trace (state_of q))"
    proof (cases "loaded (objs s a)")
      case False
      with e show ?thesis by (auto simp: eq)
    next
      case True
      with e growsD [OF upholds_grows [OF all [of "length (detached_children s a)"]], of s q]
      show ?thesis by (simp add: eq)
    qed
  next
    fix s q assume e: "unload_body U E a s = Some q" and w: "without bad s (state_of q)"
    show "rel s (state_of q)"
    proof (cases "loaded (objs s a)")
      case False
      with e framingD(1) [OF fr] show ?thesis by (auto simp: eq)
    next
      case True
      with e w upholdsD [OF all [of "length (detached_children s a)"], of s q]
      show ?thesis by (simp add: eq)
    qed
  qed
qed

lemma grows_all:
  "(\<forall>cb. grows (exec n cb)) \<and> (\<forall>a. grows (load n a)) \<and> (\<forall>a. grows (unload n a))"
proof (induction n)
  case 0
  have "exec 0 cb = (\<lambda>s. None)" "load 0 a = (\<lambda>s. None)" "unload 0 a = (\<lambda>s. None)" for cb a
    by (simp_all add: fun_eq_iff)
  then show ?case by (simp add: grows_def)
next
  case (Suc n)
  note fr = framing_top [of "\<lambda>_. False"]
  have E: "upholds (\<lambda>_. False) (\<lambda>_ _. True) (exec n cb)" for cb using Suc by (simp add: grows_upholds)
  have L: "grows (load n a)" for a using Suc by simp
  have U: "grows (unload n a)" for a using Suc by simp
  have 1: "grows (exec (Suc n) cb)" for cb
  proof -
    have "upholds (\<lambda>_. False) (\<lambda>_ _. True) (run (step (load n) (unload n)) cb)"
      by (rule upholds_run [OF fr], rule upholds_step [OF fr L U]) (simp_all add: grows_upholds L U)
    then show ?thesis by (simp add: upholds_def grows_def)
  qed
  have 2: "grows (load (Suc n) a)" for a
  proof -
    have "upholds (\<lambda>_. False) (\<lambda>_ _. True) (load_body (exec n) a)"
      by (rule upholds_load_body [OF fr E]) simp
    then show ?thesis by (simp add: upholds_def grows_def)
  qed
  have 3: "grows (unload (Suc n) a)" for a
  proof -
    have "upholds (\<lambda>_. False) (\<lambda>_ _. True) (unload_body (unload n) (exec n) a)"
      by (rule upholds_unload_body [OF fr U _ E]) (simp_all add: grows_upholds U)
    then show ?thesis by (simp add: upholds_def grows_def)
  qed
  from 1 2 3 show ?case by blast
qed

lemma grows_exec: "grows (exec n cb)" and grows_load: "grows (load n a)" and grows_unload: "grows (unload n a)"
  using grows_all [of n] by auto





lemma upholds_all:
  assumes fr: "framing bad rel okL okU"
  shows "(\<forall>cb. upholds bad rel (exec n cb)) \<and> (\<forall>a. okL a \<longrightarrow> upholds bad rel (load n a))
     \<and> (\<forall>a. okU a \<longrightarrow> upholds bad rel (unload n a))"
proof (induction n)
  case 0
  have "exec 0 cb = (\<lambda>s. None)" "load 0 a = (\<lambda>s. None)" "unload 0 a = (\<lambda>s. None)" for cb a
    by (simp_all add: fun_eq_iff)
  then show ?case by simp
next
  case (Suc n)
  have E: "upholds bad rel (exec n cb)" for cb using Suc by simp
  have L: "upholds bad rel (load n a)" if "okL a" for a using Suc that by simp
  have U: "upholds bad rel (unload n a)" if "okU a" for a using Suc that by simp
  have 1: "upholds bad rel (exec (Suc n) cb)" for cb
  proof -
    have "upholds bad rel (run (step (load n) (unload n)) cb)"
      by (rule upholds_run [OF fr], rule upholds_step [OF fr grows_load grows_unload L U])
    then show ?thesis by (simp add: upholds_def grows_def)
  qed
  have 2: "upholds bad rel (load (Suc n) a)" if "okL a" for a
  proof -
    have "upholds bad rel (load_body (exec n) a)"
      by (rule upholds_load_body [OF fr E that])
    then show ?thesis by (simp add: upholds_def grows_def)
  qed
  have 3: "upholds bad rel (unload (Suc n) a)" if "okU a" for a
  proof -
    have "upholds bad rel (unload_body (unload n) (exec n) a)"
      by (rule upholds_unload_body [OF fr grows_unload U E that])
    then show ?thesis by (simp add: upholds_def grows_def)
  qed
  from 1 2 3 show ?case by blast
qed

subsection \<open>The three relations along a run\<close>

lemma framingI:
  assumes "\<And>s. rel s s"
    and "\<And>s s' s''. prefix (trace s) (trace s') \<Longrightarrow> prefix (trace s') (trace s'') \<Longrightarrow> rel s s' \<Longrightarrow> rel s' s'' \<Longrightarrow> rel s s''"
    and "\<And>c s s'. step (\<lambda>_ _. None) (\<lambda>_ _. None) c s = Some (Returns s') \<Longrightarrow> without bad s s' \<Longrightarrow> rel s s'"
    and "\<And>c s. \<not> bad (Invoke c) \<Longrightarrow> rel s (emit (Invoke c) s)"
    and "\<And>b. \<not> bad (Invoke (CallLoad b)) \<Longrightarrow> okL b"
    and "\<And>b. \<not> bad (Invoke (CallUnload b)) \<Longrightarrow> okU b"
    and "\<And>b d. \<not> bad (ChildUnload b d) \<Longrightarrow> okU d"
    and "\<And>b s. okL b \<Longrightarrow> \<not> loaded (objs s b) \<Longrightarrow> rel s (emit (Onload b) (upd b (\<lambda>ob. ob\<lparr>loaded := True\<rparr>) s))"
    and "\<And>b d s. okU b \<Longrightarrow> \<not> bad (ChildUnload b d) \<Longrightarrow> rel s (emit (ChildUnload b d) s)"
    and "\<And>b s. okU b \<Longrightarrow> rel s (reset_intervals b (clear_intervals b (reset_children b s)))"
    and "\<And>b cb s. okU b \<Longrightarrow> rel s (emit (Dispose b cb) s)"
    and "\<And>b s. okU b \<Longrightarrow> rel s (emit (Onunload b) (reset_disposables b s))"
    and "\<And>b s. okU b \<Longrightarrow> rel s (upd b (\<lambda>ob. ob\<lparr>loaded := False\<rparr>) s)"
  shows "framing bad rel okL okU"
  using assms by (simp add: framing_def)

lemma calls_of_Nil [simp]: "calls_of a [] = []"
  by (simp add: calls_of_def)

lemma calls_of_append [simp]: "calls_of a (xs @ ys) = calls_of a xs @ calls_of a ys"
  by (simp add: calls_of_def)

lemma calls_of_Cons: "calls_of a (e # es) = (if actor e = Some a then e # calls_of a es else calls_of a es)"
  by (simp add: calls_of_def)


lemma calls_of_map_other: "(\<And>x. actor (ev x) \<noteq> Some a) \<Longrightarrow> calls_of a (map ev xs) = []"
  by (induction xs) (simp_all add: calls_of_def)

lemma disposed_append [simp]: "disposed a (xs @ ys) = disposed a xs @ disposed a ys"
  by (induction a xs rule: disposed.induct) simp_all


lemma disposed_maps [simp]:
  "disposed a (map (Dispose a) ds) = ds"
  "disposed a (map (ChildUnload b) cs) = []"
  "disposed a (map (TimerCancel b) ts) = []"
  "disposed a (map (\<lambda>x. Extern (g x)) xs) = []"
  by (induction ds, simp_all) (induction cs, simp_all, induction ts, simp_all, induction xs, simp_all)

lemma same_at_refl [simp]: "same_at a s s"
  by (simp add: same_at_def)


lemma same_at_emit [simp]: "same_at a s (emit e s)"
  by (simp add: same_at_def)

lemma framing_carried_over: "framing (\<lambda>_. False) carried_over (\<lambda>_. True) (\<lambda>_. True)"
proof (rule framingI)
  show "carried_over s s''" if "carried_over s s'" "carried_over s' s''" for s s' s''
  proof -
    have "prefix (registeredCommands (objs s b)) (registeredCommands (objs s'' b))"
         "prefix (registeredEvents (objs s b)) (registeredEvents (objs s'' b))" for b
      using that unfolding carried_over_def by (meson prefix_order.order_trans)+
    with that show ?thesis by (simp add: carried_over_def)
  qed
  show "carried_over s s'" if "step (\<lambda>_ _. None) (\<lambda>_ _. None) c s = Some (Returns s')" for c s s'
    using that by (cases c) (auto simp: carried_over_def method_simps Let_def plugin_onunload_eq upd_def emit_def)
qed (simp_all add: carried_over_def)

lemma framing_untouched: "framing (enters a) (untouched a) (\<lambda>b. b \<noteq> a) (\<lambda>b. b \<noteq> a)"
proof (rule framingI)
  show "untouched a s s''"
    if "prefix (trace s) (trace s')" "prefix (trace s') (trace s'')" "untouched a s s'" "untouched a s' s''"
    for s s' s''
    using that(3,4) news_trans [OF that(1,2)] by (simp add: untouched_def same_at_def)
  show "untouched a s s'"
    if "step (\<lambda>_ _. None) (\<lambda>_ _. None) c s = Some (Returns s')" "without (enters a) s s'" for c s s'
    using that
    by (cases c)
       (auto simp: untouched_def same_at_def without_def news_def calls_of_def method_simps Let_def
          plugin_onunload_eq upd_def emit_def filter_empty_conv split: if_splits)
qed (auto simp: untouched_def same_at_def news_def calls_of_def filter_empty_conv)

lemma framing_kept: "framing (unloads a) (kept a) (\<lambda>_. True) (\<lambda>b. b \<noteq> a)"
proof (rule framingI)
  show "kept a s s''"
    if "prefix (trace s) (trace s')" "prefix (trace s') (trace s'')" "kept a s s'" "kept a s' s''"
    for s s' s''
  proof -
    have "prefix (disposables (objs s a)) (disposables (objs s'' a))"
      using that(3,4) unfolding kept_def by (meson prefix_order.order_trans)
    with that(3,4) news_trans [OF that(1,2)] show ?thesis by (simp add: kept_def)
  qed
  show "kept a s s'"
    if "step (\<lambda>_ _. None) (\<lambda>_ _. None) c s = Some (Returns s')" "without (unloads a) s s'" for c s s'
    using that
    by (cases c)
       (auto simp: kept_def news_def calls_of_def method_simps Let_def
          plugin_onunload_eq upd_def emit_def filter_empty_conv split: if_splits)
qed (auto simp: kept_def news_def calls_of_def filter_empty_conv)

lemma carried_over_run:
  "exec n cb s = Some q \<Longrightarrow> carried_over s (state_of q)"
  "load n a s = Some q \<Longrightarrow> carried_over s (state_of q)"
  "unload n a s = Some q \<Longrightarrow> carried_over s (state_of q)"
  using upholds_all [OF framing_carried_over, of n]
  by (auto dest!: upholdsD simp: without_def)

lemma untouched_run:
  "exec n cb s = Some q \<Longrightarrow> without (enters a) s (state_of q) \<Longrightarrow> untouched a s (state_of q)"
  "b \<noteq> a \<Longrightarrow> load n b s = Some q \<Longrightarrow> without (enters a) s (state_of q) \<Longrightarrow> untouched a s (state_of q)"
  "b \<noteq> a \<Longrightarrow> unload n b s = Some q \<Longrightarrow> without (enters a) s (state_of q) \<Longrightarrow> untouched a s (state_of q)"
  using upholds_all [OF framing_untouched, of a n]
  by (auto dest: upholdsD)

lemma kept_run:
  "exec n cb s = Some q \<Longrightarrow> without (unloads a) s (state_of q) \<Longrightarrow> kept a s (state_of q)"
  "load n b s = Some q \<Longrightarrow> without (unloads a) s (state_of q) \<Longrightarrow> kept a s (state_of q)"
  "b \<noteq> a \<Longrightarrow> unload n b s = Some q \<Longrightarrow> without (unloads a) s (state_of q) \<Longrightarrow> kept a s (state_of q)"
  using upholds_all [OF framing_kept, of a n]
  by (auto dest: upholdsD)

section \<open>unload against its five phases\<close>








lemma news_same_trace [simp]:
  "news (upd a f s) t = news s t" "news s (upd a f t) = news s t"
  "news (reset_children a s) t = news s t" "news s (reset_children a t) = news s t"
  "news (reset_intervals a s) t = news s t" "news s (reset_intervals a t) = news s t"
  "news (reset_disposables a s) t = news s t" "news s (reset_disposables a t) = news s t"
  by (simp_all add: news_def)

lemma without_same_trace [simp]:
  "without bad (upd a f s) t = without bad s t" "without bad s (upd a f t) = without bad s t"
  "without bad (reset_children a s) t = without bad s t" "without bad s (reset_children a t) = without bad s t"
  "without bad (reset_intervals a s) t = without bad s t" "without bad s (reset_intervals a t) = without bad s t"
  "without bad (reset_disposables a s) t = without bad s t" "without bad s (reset_disposables a t) = without bad s t"
  by (simp_all add: without_def)










subsection \<open>What every run carries over\<close>

lemma carried_over_trans: "carried_over s s' \<Longrightarrow> carried_over s' s'' \<Longrightarrow> carried_over s s''"
proof -
  assume 1: "carried_over s s'" and 2: "carried_over s' s''"
  have "prefix (registeredCommands (objs s b)) (registeredCommands (objs s'' b))"
       "prefix (registeredEvents (objs s b)) (registeredEvents (objs s'' b))" for b
    using 1 2 unfolding carried_over_def by (meson prefix_order.order_trans)+
  with 1 2 show ?thesis by (simp add: carried_over_def)
qed

lemma carried_over_steps [simp]:
  "carried_over s s"
  "carried_over s (emit e s)"
  "carried_over s (reset_children a s)"
  "carried_over s (reset_intervals a s)"
  "carried_over s (reset_disposables a s)"
  "carried_over s (clear_intervals a s)"
  "carried_over s (upd a (\<lambda>ob. ob\<lparr>loaded := v\<rparr>) s)"
  by (simp_all add: carried_over_def)

lemma upholds_carried_exec: "upholds (\<lambda>_. False) carried_over (exec n cb)"
  and upholds_carried_load: "upholds (\<lambda>_. False) carried_over (load n a)"
  and upholds_carried_unload: "upholds (\<lambda>_. False) carried_over (unload n a)"
  using upholds_all [OF framing_carried_over, of n] by auto

lemma carried_over_forEach:
  assumes "\<And>x. upholds (\<lambda>_. False) carried_over (g x)" and "forEach arr (\<lambda>x s'. g x (emit (ev x) s')) s = Some q"
  shows "carried_over s (state_of q)"
proof -
  have "upholds (\<lambda>_. False) carried_over (forEach arr (\<lambda>x s'. g x (emit (ev x) s')))"
    by (rule upholds_forEach [OF framing_carried_over],
        rule upholds_after_emit [OF framing_carried_over upholds_grows [OF assms(1)] assms(1)]) simp
  from upholdsD [OF this assms(2)] show ?thesis by (simp add: without_def)
qed

text \<open>When \<open>unload\<close> of a loaded component returns, it has run the teardown hook and then set the flag.\<close>

lemma unload_returns_hook:
  assumes l: "loaded (objs s a)" and u: "unload (Suc n) a s = Some (Returns s')"
  shows "\<exists>s4 s5. carried_over s s4
     \<and> exec n (onunload_hook (objs s4 a)) (emit (Onunload a) s4) = Some (Returns s5)
     \<and> s' = upd a (\<lambda>ob. ob\<lparr>loaded := False\<rparr>) s5"
proof -
  let ?fC = "\<lambda>c s'. unload n c (emit (ChildUnload a c) s')"
  let ?fD = "\<lambda>cb s'. exec n cb (emit (Dispose a cb) s')"
  let ?mid = "\<lambda>s1. reset_intervals a (clear_intervals a (reset_children a s1))"
  from u l obtain s1 s3 s5 where
    c1: "forEach (children_array a (length (detached_children s a))) ?fC s = Some (Returns s1)"
    and d1: "forEach (disposables_array a (length (detached_disposables (?mid s1) a))) ?fD (?mid s1) = Some (Returns s3)"
    and h1: "exec n (onunload_hook (objs (reset_disposables a s3) a)) (emit (Onunload a) (reset_disposables a s3)) = Some (Returns s5)"
    and s': "s' = upd a (\<lambda>ob. ob\<lparr>loaded := False\<rparr>) s5"
    by (auto simp: unload_body_def Let_def dest!: andThen_Returns)
  have 1: "carried_over s s1"
    using carried_over_forEach [where g = "unload n" and ev = "ChildUnload a", OF upholds_carried_unload c1] by simp
  have 2: "carried_over s1 (?mid s1)" by (simp add: carried_over_def)
  have 3: "carried_over (?mid s1) s3"
    using carried_over_forEach [where g = "exec n" and ev = "Dispose a", OF upholds_carried_exec d1] by simp
  have 4: "carried_over s3 (reset_disposables a s3)" by simp
  have "carried_over s (reset_disposables a s3)"
    by (rule carried_over_trans [OF carried_over_trans [OF carried_over_trans [OF 1 2] 3] 4])
  with h1 s' show ?thesis by blast
qed

lemma unload_unloaded: "\<not> loaded (objs s a) \<Longrightarrow> unload (Suc n) a s = Some (Returns s)"
  by (simp add: unload_body_def)

lemma unload_Returns_unloaded:
  assumes "unload (Suc n) a s = Some (Returns s')"
  shows "\<not> loaded (objs s' a)"
proof (cases "loaded (objs s a)")
  case False
  with assms show ?thesis by (simp add: unload_body_def)
next
  case True
  with assms obtain s5 where "s' = upd a (\<lambda>ob. ob\<lparr>loaded := False\<rparr>) s5"
    by (auto simp: unload_body_def Let_def dest!: andThen_Returns)
  then show ?thesis by simp
qed

lemma run_noop: "(\<And>x. f x s = Some (Returns s)) \<Longrightarrow> run f xs s = Some (Returns s)"
  by (induction xs) simp_all

lemma load_unloaded:
  "\<not> loaded (objs s a) \<Longrightarrow>
     load (Suc n) a s = exec n (onload_hook (objs s a)) (emit (Onload a) (upd a (\<lambda>ob. ob\<lparr>loaded := True\<rparr>) s))"
  by (simp add: load_body_def Let_def)

lemma load_loaded: "loaded (objs s a) \<Longrightarrow> load (Suc n) a s = Some (Returns s)"
  by (simp add: load_body_def)

lemma indexOf_absent: "x \<notin> set xs \<Longrightarrow> indexOf xs x = - 1"
  by (induction xs) (auto simp: Let_def)

lemma indexOf_present: "x \<in> set xs \<Longrightarrow> 0 \<le> indexOf xs x \<and> splice1 (nat (indexOf xs x)) xs = remove1 x xs"
proof (induction xs)
  case Nil
  then show ?case by simp
next
  case (Cons y ys)
  show ?case
  proof (cases "y = x")
    case True
    then show ?thesis by (simp add: splice1_def)
  next
    case False
    with Cons have ih: "0 \<le> indexOf ys x" "splice1 (nat (indexOf ys x)) ys = remove1 x ys" by auto
    then have "nat (indexOf ys x + 1) = Suc (nat (indexOf ys x))" by simp
    with False ih show ?thesis by (simp add: Let_def splice1_def)
  qed
qed

lemma removeChild_children:
  "children (objs (snd (removeChild a x s)) a) = remove1 x (children (objs s a))"
proof (cases "x \<in> set (children (objs s a))")
  case True
  from indexOf_present [OF this] show ?thesis by (simp add: removeChild_def Let_def)
next
  case False
  then show ?thesis by (simp add: removeChild_def indexOf_absent remove1_idem)
qed

lemma upd_children_same: "children (objs s a) = cs \<Longrightarrow> upd a (\<lambda>ob. ob\<lparr>children := cs\<rparr>) s = s"
  by (cases s) (auto simp: upd_def fun_eq_iff)


subsection \<open>A deeper call bound does not change an outcome\<close>

lemma andThen_mono:
  assumes "andThen r k = Some q" and "\<And>s q. k s = Some q \<Longrightarrow> k' s = Some q"
  shows "andThen r k' = Some q"
  using assms by (auto simp: andThen_def split: option.splits outcome.splits)

lemma run_mono:
  assumes "\<And>x s q. f x s = Some q \<Longrightarrow> f' x s = Some q"
  shows "run f xs s = Some q \<Longrightarrow> run f' xs s = Some q"
proof (induction xs arbitrary: s q)
  case Nil
  then show ?case by simp
next
  case (Cons x xs)
  from Cons.prems have "andThen (f x s) (run f xs) = Some q" by simp
  then have "andThen (f x s) (run f' xs) = Some q" by (rule andThen_mono) (rule Cons.IH)
  then have "andThen (f' x s) (run f' xs) = Some q"
    using assms [of x s] by (cases "f x s") auto
  then show ?case by simp
qed

lemma forEachFrom_mono:
  assumes "\<And>x s q. f x s = Some q \<Longrightarrow> f' x s = Some q"
  shows "forEachFrom arr f k m s = Some q \<Longrightarrow> forEachFrom arr f' k m s = Some q"
proof (induction m arbitrary: k s q)
  case 0
  then show ?case by simp
next
  case (Suc m)
  show ?case
  proof (cases "k < length (arr s)")
    case True
    with Suc.prems have "andThen (f (arr s ! k) s) (forEachFrom arr f (Suc k) m) = Some q" by simp
    then have "andThen (f (arr s ! k) s) (forEachFrom arr f' (Suc k) m) = Some q"
      by (rule andThen_mono) (rule Suc.IH)
    then have "andThen (f' (arr s ! k) s) (forEachFrom arr f' (Suc k) m) = Some q"
      using assms [of "arr s ! k" s] by (cases "f (arr s ! k) s") auto
    with True show ?thesis by simp
  next
    case False
    with Suc.prems Suc.IH [of "Suc k" s q] show ?thesis by simp
  qed
qed

lemma forEach_mono:
  assumes "\<And>x s q. f x s = Some q \<Longrightarrow> f' x s = Some q"
  shows "forEach arr f s = Some q \<Longrightarrow> forEach arr f' s = Some q"
  unfolding forEach_def by (rule forEachFrom_mono) (rule assms)

lemma step_mono:
  assumes "\<And>a s q. L a s = Some q \<Longrightarrow> L' a s = Some q" and "\<And>a s q. U a s = Some q \<Longrightarrow> U' a s = Some q"
  shows "step L U c s = Some q \<Longrightarrow> step L' U' c s = Some q"
  using assms by (cases c) simp_all

lemma load_body_mono:
  assumes "\<And>cb s q. E cb s = Some q \<Longrightarrow> E' cb s = Some q"
  shows "load_body E a s = Some q \<Longrightarrow> load_body E' a s = Some q"
  using assms by (simp add: load_body_def Let_def split: if_splits)

lemma unload_body_mono:
  assumes U: "\<And>c s q. U c s = Some q \<Longrightarrow> U' c s = Some q"
      and E: "\<And>cb s q. E cb s = Some q \<Longrightarrow> E' cb s = Some q"
      and r: "unload_body U E a s = Some q"
  shows "unload_body U' E' a s = Some q"
proof (cases "loaded (objs s a)")
  case False
  with r show ?thesis by (simp add: unload_body_def)
next
  case True
  let ?mid = "\<lambda>s1. reset_intervals a (clear_intervals a (reset_children a s1))"
  let ?K = "\<lambda>E s1. andThen (forEach (disposables_array a (length (detached_disposables (?mid s1) a)))
                      (\<lambda>cb s'. E cb (emit (Dispose a cb) s')) (?mid s1))
         (\<lambda>s3. andThen (E (onunload_hook (objs (reset_disposables a s3) a)) (emit (Onunload a) (reset_disposables a s3)))
         (\<lambda>s5. Some (Returns (upd a (\<lambda>ob. ob\<lparr>loaded := False\<rparr>) s5))))"
  let ?C = "\<lambda>U. forEach (children_array a (length (detached_children s a)))
              (\<lambda>child s'. U child (emit (ChildUnload a child) s')) s"
  have K: "?K E' s1 = Some q'" if "?K E s1 = Some q'" for s1 q'
  proof -
    have "andThen (forEach (disposables_array a (length (detached_disposables (?mid s1) a)))
                      (\<lambda>cb s'. E cb (emit (Dispose a cb) s')) (?mid s1))
         (\<lambda>s3. andThen (E' (onunload_hook (objs (reset_disposables a s3) a)) (emit (Onunload a) (reset_disposables a s3)))
         (\<lambda>s5. Some (Returns (upd a (\<lambda>ob. ob\<lparr>loaded := False\<rparr>) s5)))) = Some q'"
      using that
    proof (rule andThen_mono)
      fix s3 q''
      assume "andThen (E (onunload_hook (objs (reset_disposables a s3) a)) (emit (Onunload a) (reset_disposables a s3)))
         (\<lambda>s5. Some (Returns (upd a (\<lambda>ob. ob\<lparr>loaded := False\<rparr>) s5))) = Some q''"
      then show "andThen (E' (onunload_hook (objs (reset_disposables a s3) a)) (emit (Onunload a) (reset_disposables a s3)))
         (\<lambda>s5. Some (Returns (upd a (\<lambda>ob. ob\<lparr>loaded := False\<rparr>) s5))) = Some q''"
        using E [of "onunload_hook (objs (reset_disposables a s3) a)" "emit (Onunload a) (reset_disposables a s3)"]
        by (cases "E (onunload_hook (objs (reset_disposables a s3) a)) (emit (Onunload a) (reset_disposables a s3))") auto
    qed
    moreover have "forEach (disposables_array a (length (detached_disposables (?mid s1) a)))
                      (\<lambda>cb s'. E' cb (emit (Dispose a cb) s')) (?mid s1) = Some x"
      if "forEach (disposables_array a (length (detached_disposables (?mid s1) a)))
                      (\<lambda>cb s'. E cb (emit (Dispose a cb) s')) (?mid s1) = Some x" for x
      using that by (rule forEach_mono [rotated]) (rule E)
    ultimately show ?thesis
      by (cases "forEach (disposables_array a (length (detached_disposables (?mid s1) a)))
                      (\<lambda>cb s'. E cb (emit (Dispose a cb) s')) (?mid s1)") auto
  qed
  from r True have "andThen (?C U) (?K E) = Some q" by (simp add: unload_body_def Let_def)
  then have "andThen (?C U) (?K E') = Some q" by (rule andThen_mono) (rule K)
  moreover have "?C U' = Some x" if "?C U = Some x" for x
    using that by (rule forEach_mono [rotated]) (rule U)
  ultimately have "andThen (?C U') (?K E') = Some q" by (cases "?C U") auto
  with True show ?thesis by (simp add: unload_body_def Let_def)
qed

lemma deeper_same_outcome:
  "(exec n cb s = Some q \<longrightarrow> exec (Suc n) cb s = Some q)
   \<and> (load n a s = Some q \<longrightarrow> load (Suc n) a s = Some q)
   \<and> (unload n a s = Some q \<longrightarrow> unload (Suc n) a s = Some q)"
proof (induction n arbitrary: cb a s q)
  case 0
  show ?case by simp
next
  case (Suc n)
  have E: "exec (Suc n) cb s = Some q" if "exec n cb s = Some q" for cb s q using Suc that by blast
  have L: "load (Suc n) a s = Some q" if "load n a s = Some q" for a s q using Suc that by blast
  have U: "unload (Suc n) a s = Some q" if "unload n a s = Some q" for a s q using Suc that by blast
  have 1: "exec (Suc (Suc n)) cb s = Some q" if "exec (Suc n) cb s = Some q"
  proof -
    from that have "run (step (load n) (unload n)) cb s = Some q" by simp
    then have "run (step (load (Suc n)) (unload (Suc n))) cb s = Some q"
      using run_mono [of "step (load n) (unload n)" "step (load (Suc n)) (unload (Suc n))" cb s q]
        step_mono [of "load n" "load (Suc n)" "unload n" "unload (Suc n)"] L U by blast
    then show ?thesis by simp
  qed
  have 2: "load (Suc (Suc n)) a s = Some q" if "load (Suc n) a s = Some q"
  proof -
    from that have "load_body (exec n) a s = Some q" by simp
    then have "load_body (exec (Suc n)) a s = Some q"
      using load_body_mono [of "exec n" "exec (Suc n)" a s q] E by blast
    then show ?thesis by simp
  qed
  have 3: "unload (Suc (Suc n)) a s = Some q" if "unload (Suc n) a s = Some q"
  proof -
    from that have "unload_body (unload n) (exec n) a s = Some q" by simp
    then have "unload_body (unload (Suc n)) (exec (Suc n)) a s = Some q"
      using unload_body_mono [of "unload n" "unload (Suc n)" "exec n" "exec (Suc n)" a s q] U E by blast
    then show ?thesis by simp
  qed
  from 1 2 3 show ?case by blast
qed

lemma deeper_exec: "exec n cb s = Some q \<Longrightarrow> exec (n + k) cb s = Some q"
proof (induction k)
  case 0
  then show ?case by simp
next
  case (Suc k)
  from Suc.IH [OF Suc.prems] deeper_same_outcome [of "n + k" cb s q]
  have "exec (Suc (n + k)) cb s = Some q" by blast
  then show ?case by (simp only: add_Suc_right)
qed

lemma deeper_load: "load n a s = Some q \<Longrightarrow> load (n + k) a s = Some q"
proof (induction k)
  case 0
  then show ?case by simp
next
  case (Suc k)
  from Suc.IH [OF Suc.prems] deeper_same_outcome [of "n + k" _ s q a]
  have "load (Suc (n + k)) a s = Some q" by blast
  then show ?case by (simp only: add_Suc_right)
qed

lemma deeper_unload: "unload n a s = Some q \<Longrightarrow> unload (n + k) a s = Some q"
proof (induction k)
  case 0
  then show ?case by simp
next
  case (Suc k)
  from Suc.IH [OF Suc.prems] deeper_same_outcome [of "n + k" _ s q a]
  have "unload (Suc (n + k)) a s = Some q" by blast
  then show ?case by (simp only: add_Suc_right)
qed

subsection \<open>Settings persistence\<close>

lemma same_lifecycle_refl [simp]: "same_lifecycle s s"
  by (simp add: same_lifecycle_def)

lemma same_lifecycle_trans: "same_lifecycle s s' \<Longrightarrow> same_lifecycle s' s'' \<Longrightarrow> same_lifecycle s s''"
  by (simp add: same_lifecycle_def)

lemma harmlessI:
  "(\<And>s. same_lifecycle s (settled_state (f s)) \<and> (\<forall>b. manifest_id (objs (settled_state (f s)) b) = manifest_id (objs s b)))
     \<Longrightarrow> harmless f"
  by (simp add: harmless_def)

lemma harmless_await:
  assumes f: "harmless f" and g: "\<And>v. harmless (g v)"
  shows "harmless (\<lambda>s. await (f s) g)"
proof (rule harmlessI)
  fix s
  show "same_lifecycle s (settled_state (await (f s) g)) \<and>
        (\<forall>b. manifest_id (objs (settled_state (await (f s) g)) b) = manifest_id (objs s b))"
  proof (cases "f s")
    case (Inl e)
    then show ?thesis using f [unfolded harmless_def, rule_format, of s] by (cases e) (simp add: await_def)
  next
    case (Inr r)
    obtain v s' where r: "r = (v, s')" by (cases r)
    have 1: "same_lifecycle s s'" "\<forall>b. manifest_id (objs s' b) = manifest_id (objs s b)"
      using f [unfolded harmless_def, rule_format, of s] Inr r by simp_all
    have 2: "same_lifecycle s' (settled_state (g v s'))" "\<forall>b. manifest_id (objs (settled_state (g v s')) b) = manifest_id (objs s' b)"
      using g [of v, unfolded harmless_def, rule_format, of s'] by simp_all
    show ?thesis using Inr r 1 2 same_lifecycle_trans [OF 1(1) 2(1)] by (simp add: await_def)
  qed
qed

lemma harmless_try_catch:
  assumes f: "harmless f" and h: "\<And>e. harmless (h e)"
  shows "harmless (\<lambda>s. try_catch (f s) h)"
proof (rule harmlessI)
  fix s
  show "same_lifecycle s (settled_state (try_catch (f s) h)) \<and>
        (\<forall>b. manifest_id (objs (settled_state (try_catch (f s) h)) b) = manifest_id (objs s b))"
  proof (cases "f s")
    case (Inr r)
    then show ?thesis using f [unfolded harmless_def, rule_format, of s] by (cases r) (simp add: try_catch_def)
  next
    case (Inl r)
    obtain e s' where r: "r = (e, s')" by (cases r)
    have 1: "same_lifecycle s s'" "\<forall>b. manifest_id (objs s' b) = manifest_id (objs s b)"
      using f [unfolded harmless_def, rule_format, of s] Inl r by simp_all
    have 2: "same_lifecycle s' (settled_state (h e s'))" "\<forall>b. manifest_id (objs (settled_state (h e s')) b) = manifest_id (objs s' b)"
      using h [of e, unfolded harmless_def, rule_format, of s'] by simp_all
    show ?thesis using Inl r 1 2 same_lifecycle_trans [OF 1(1) 2(1)] by (simp add: try_catch_def)
  qed
qed

lemma harmless_if: "harmless f \<Longrightarrow> harmless g \<Longrightarrow> harmless (\<lambda>s. if c then f s else g s)"
  by (cases c) simp_all

lemma harmless_basic [simp]:
  "harmless (dynamic_import ok)" "harmless (settle what v)" "harmless (fs_exists P path)"
  "harmless (fs_readTextFile P path)" "harmless (fs_mkdir P path)" "harmless (fs_writeTextFile P path content)"
  "harmless (\<lambda>s. Inr (x, s))" "harmless (\<lambda>s. Inr (x, console_error msg s))"
  "harmless (\<lambda>s. Inr (x, upd a (\<lambda>ob. ob\<lparr>settingsData := d\<rparr>) s))"
  by (simp_all add: harmless_def same_lifecycle_def dynamic_import_def settle_def fs_exists_def
      fs_readTextFile_def fs_mkdir_def fs_writeTextFile_def console_error_def emit_def upd_def split: option.split)

lemma harmless_settle_dep [simp]: "harmless (\<lambda>s. settle what (v s) s)"
  by (simp add: harmless_def same_lifecycle_def settle_def split: option.split)

lemma harmless_console [simp]: "harmless (\<lambda>s. Inr (x, console_error (msg s) s))"
  by (simp add: harmless_def same_lifecycle_def console_error_def emit_def)

lemma harmless_getSettingsDir [simp]: "harmless (getSettingsDir P a)"
  unfolding getSettingsDir_def by (intro harmless_await) simp_all

lemma harmless_getSettingsPath [simp]: "harmless (getSettingsPath P a)"
  unfolding getSettingsPath_def by (intro harmless_await) simp_all

lemma harmless_ensureSettingsDir [simp]: "harmless (ensureSettingsDir P a)"
  unfolding ensureSettingsDir_def ensureSettingsDir_try_def
  by (intro harmless_try_catch harmless_await harmless_if) simp_all

lemma harmless_loadData: "harmless (loadData P a)"
  unfolding loadData_def loadData_try_def
  by (intro harmless_try_catch harmless_await harmless_if) simp_all

lemma harmless_saveData: "harmless (saveData P a d)"
proof -
  have "harmless (\<lambda>s. settle ''JSON.stringify'' (JSON_stringify P d) (upd a (\<lambda>ob. ob\<lparr>settingsData := d\<rparr>) s))"
    by (simp add: harmless_def same_lifecycle_def settle_def upd_def split: option.split)
  then show ?thesis
    unfolding saveData_def saveData_try_def
    by (intro harmless_try_catch harmless_await harmless_if) simp_all
qed

lemma try_catch_Inr:
  "(\<And>e s. \<exists>v s'. h e s = Inr (v, s')) \<Longrightarrow> \<exists>v s'. try_catch body h = Inr (v, s')"
  by (cases body) (auto simp: try_catch_def)

section \<open>The claims\<close>




text \<open>
  C2. As stated for every node, the claim fails when the initialization hook unloads the
  node. In \<open>demo_reload\<close> the hook ends with \<open>this.unload()\<close>: \<open>load()\<close> returns with the flag
  false, and a second \<open>load()\<close> in a row runs the hook again. In \<open>demo_toggle\<close> the hook unloads
  the component 1, whose teardown hook unloads the node, and then calls \<open>load()\<close> on the node:
  this re-entrant \<open>load()\<close> finds the flag false and runs the hook a second time within the
  one call of \<open>load()\<close>.
\<close>

theorem load_counterexample_hook_again:
  "\<not> loaded (objs demo_reload 0)
   \<and> (\<exists>s1 s2. load (Suc (Suc (Suc (Suc 0)))) 0 demo_reload = Some (Returns s1) \<and> \<not> loaded (objs s1 0)
         \<and> calls_of 0 (trace s1) = [Onload 0, Onunload 0]
         \<and> load (Suc (Suc (Suc (Suc 0)))) 0 s1 = Some (Returns s2)
         \<and> calls_of 0 (trace s2) = [Onload 0, Onunload 0, Onload 0, Onunload 0])
   \<and> \<not> loaded (objs demo_toggle 0)
   \<and> (\<exists>s1. load (Suc (Suc (Suc (Suc (Suc (Suc 0)))))) 0 demo_toggle = Some (Returns s1)
         \<and> calls_of 0 (trace s1) = [Onload 0, Onunload 0, Onload 0])"
  by (simp add: demo_reload_def demo_toggle_def eval_simps calls_of_def)

text \<open>
  C2, amended. \<open>load()\<close> on a loaded component returns the state as it was. On a component
  that is not loaded it sets the flag and then runs the initialization hook, which starts
  with the flag true, and a call of \<open>load()\<close> on the component made by a callback while the
  flag is true is recorded and changes nothing else. Take a run of \<open>load()\<close> on a component \<open>a\<close>
  that is not loaded in which nothing calls \<open>unload()\<close> on \<open>a\<close>: whether it returns or throws,
  \<open>a\<close> is loaded at the end and the one call \<open>a\<close> has made is the call of its initialization
  hook, however many calls of \<open>load()\<close> on \<open>a\<close> the hook has made; and when it returns, any
  number of further calls of \<open>load()\<close> in a row leave the state and its trace as they are.
\<close>

theorem load_runs_hook_once:
  "(loaded (objs s a) \<longrightarrow> load (Suc n) a s = Some (Returns s))
   \<and> (\<not> loaded (objs s a) \<longrightarrow>
        load (Suc n) a s = exec n (onload_hook (objs s a)) (emit (Onload a) (upd a (\<lambda>ob. ob\<lparr>loaded := True\<rparr>) s))
        \<and> loaded (objs (emit (Onload a) (upd a (\<lambda>ob. ob\<lparr>loaded := True\<rparr>) s)) a))
   \<and> (loaded (objs s a) \<longrightarrow>
        exec (Suc (Suc n)) (CallLoad a # rest) s = exec (Suc (Suc n)) rest (emit (Invoke (CallLoad a)) s))
   \<and> (\<not> loaded (objs s a) \<and> load (Suc n) a s = Some q \<and> without (unloads a) s (state_of q) \<longrightarrow>
        loaded (objs (state_of q) a) \<and> calls_of a (news s (state_of q)) = [Onload a]
        \<and> (\<forall>s1. q = Returns s1 \<longrightarrow> run (\<lambda>_ t. load (Suc m) a t) (replicate k ()) s1 = Some (Returns s1)))"
proof (intro conjI impI)
  assume "loaded (objs s a)"
  then show "load (Suc n) a s = Some (Returns s)" by (rule load_loaded)
next
  assume "\<not> loaded (objs s a)"
  then show "load (Suc n) a s = exec n (onload_hook (objs s a)) (emit (Onload a) (upd a (\<lambda>ob. ob\<lparr>loaded := True\<rparr>) s))"
    by (rule load_unloaded)
next
  show "loaded (objs (emit (Onload a) (upd a (\<lambda>ob. ob\<lparr>loaded := True\<rparr>) s)) a)" by simp
next
  assume "loaded (objs s a)"
  then have "load (Suc n) a (emit (Invoke (CallLoad a)) s) = Some (Returns (emit (Invoke (CallLoad a)) s))"
    by (intro load_loaded) simp
  then show "exec (Suc (Suc n)) (CallLoad a # rest) s = exec (Suc (Suc n)) rest (emit (Invoke (CallLoad a)) s)"
    by simp
next
  assume a: "\<not> loaded (objs s a) \<and> load (Suc n) a s = Some q \<and> without (unloads a) s (state_of q)"
  let ?s0 = "emit (Onload a) (upd a (\<lambda>ob. ob\<lparr>loaded := True\<rparr>) s)"
  from a have e: "exec n (onload_hook (objs s a)) ?s0 = Some q" using load_unloaded [of s a n] by simp
  have p1: "prefix (trace s) (trace ?s0)" by simp
  have p2: "prefix (trace ?s0) (trace (state_of q))" by (rule growsD [OF grows_exec e])
  from a without_trans [OF p1 p2] have w: "without (unloads a) ?s0 (state_of q)" by simp
  from kept_run(1) [OF e w] have k: "loaded (objs (state_of q) a)" "calls_of a (news ?s0 (state_of q)) = []"
    by (simp_all add: kept_def)
  have "news s (state_of q) = Onload a # news ?s0 (state_of q)"
    using news_trans [OF p1 p2] by (simp add: news_eq [where es = "[Onload a]"])
  with k show l: "loaded (objs (state_of q) a)" and "calls_of a (news s (state_of q)) = [Onload a]"
    by (simp_all add: calls_of_Cons)
  show "\<forall>s1. q = Returns s1 \<longrightarrow> run (\<lambda>_ t. load (Suc m) a t) (replicate k ()) s1 = Some (Returns s1)"
  proof (intro allI impI)
    fix s1 assume "q = Returns s1"
    with l have "load (Suc m) a s1 = Some (Returns s1)" by (intro load_loaded) simp
    then show "run (\<lambda>_ t. load (Suc m) a t) (replicate k ()) s1 = Some (Returns s1)"
      by (intro run_noop)
  qed
qed

theorem load_runs_hook_once_witness:
  "\<not> loaded (objs demo_reentrant 0)
   \<and> (\<exists>s1. load (Suc (Suc (Suc 0))) 0 demo_reentrant = Some (Returns s1)
         \<and> without (unloads 0) demo_reentrant s1
         \<and> loaded (objs s1 0) \<and> calls_of 0 (news demo_reentrant s1) = [Onload 0]
         \<and> children (objs s1 0) = [1]
         \<and> run (\<lambda>_ t. load (Suc (Suc (Suc 0))) 0 t) (replicate 3 ()) s1 = Some (Returns s1)
         \<and> exec (Suc (Suc 0)) [CallLoad 0] s1 = exec (Suc (Suc 0)) [] (emit (Invoke (CallLoad 0)) s1))"
proof -
  have u: "\<not> loaded (objs demo_reentrant 0)" by (simp add: demo_reentrant_def eval_simps)
  obtain s1 where r: "load (Suc (Suc (Suc 0))) 0 demo_reentrant = Some (Returns s1)"
    and t: "trace s1 = [Onload 0, Invoke (CallLoad 0), Invoke (CallAddChild 0 1),
         Invoke (CallRegister 0 [Host (Effect ''cleanup-ran'')]), Invoke (CallLoad 0)]"
    and c: "children (objs s1 0) = [1]"
    by (simp add: demo_reentrant_def eval_simps method_simps)
  have t0: "trace demo_reentrant = []" by (simp add: demo_reentrant_def eval_simps)
  have w: "without (unloads 0) demo_reentrant (state_of (Returns s1))"
    by (simp add: without_def news_def t t0)
  from load_runs_hook_once [of demo_reentrant 0 "Suc (Suc 0)" "[]" "Returns s1" "Suc (Suc 0)" 3] u r w
  have 1: "loaded (objs s1 0)" "calls_of 0 (news demo_reentrant s1) = [Onload 0]"
    "run (\<lambda>_ t. load (Suc (Suc (Suc 0))) 0 t) (replicate 3 ()) s1 = Some (Returns s1)" by simp_all
  from load_runs_hook_once [of s1 0 0 "[]" "Returns s1" 0 0] 1(1)
  have 2: "exec (Suc (Suc 0)) [CallLoad 0] s1 = exec (Suc (Suc 0)) [] (emit (Invoke (CallLoad 0)) s1)" by simp
  from u r w 1 2 c show ?thesis by simp
qed




text \<open>
  C4. \<open>unload()\<close> on a component whose loaded flag is false returns with the state as it
  was: the trace is unchanged, so no child is unloaded, no timer cancelled, no disposable
  invoked and the teardown hook does not run, and nothing is thrown. Whenever \<open>unload()\<close> has
  returned, the flag is false, so any number of further calls in a row change nothing.
\<close>

theorem unload_when_unloaded:
  "(\<not> loaded (objs s a) \<longrightarrow> unload (Suc n) a s = Some (Returns s)) \<and>
   (unload (Suc n) a s = Some (Returns s') \<longrightarrow>
      \<not> loaded (objs s' a) \<and> run (\<lambda>_ t. unload (Suc m) a t) (replicate k ()) s' = Some (Returns s'))"
proof (intro conjI impI)
  assume "\<not> loaded (objs s a)"
  then show "unload (Suc n) a s = Some (Returns s)" by (rule unload_unloaded)
next
  assume "unload (Suc n) a s = Some (Returns s')"
  then show "\<not> loaded (objs s' a)" by (rule unload_Returns_unloaded)
  then have "unload (Suc m) a s' = Some (Returns s')" by (rule unload_unloaded)
  then show "run (\<lambda>_ t. unload (Suc m) a t) (replicate k ()) s' = Some (Returns s')"
    by (intro run_noop)
qed

theorem unload_when_unloaded_witness:
  "\<not> loaded (objs fresh 1) \<and> unload (Suc 0) 1 fresh = Some (Returns fresh)
   \<and> unload (Suc (Suc 0)) 2 demo_tree = Some (Returns (upd 2 (\<lambda>ob. ob\<lparr>loaded := False\<rparr>) (emit (Onunload 2) (reset_disposables 2 (reset_intervals 2 (reset_children 2 demo_tree))))))
   \<and> run (\<lambda>_ t. unload (Suc 0) 2 t) (replicate 3 ())
         (upd 2 (\<lambda>ob. ob\<lparr>loaded := False\<rparr>) (emit (Onunload 2) (reset_disposables 2 (reset_intervals 2 (reset_children 2 demo_tree)))))
       = Some (Returns (upd 2 (\<lambda>ob. ob\<lparr>loaded := False\<rparr>) (emit (Onunload 2) (reset_disposables 2 (reset_intervals 2 (reset_children 2 demo_tree))))))"
proof -
  have 1: "\<not> loaded (objs fresh 1)" by (simp add: eval_simps)
  have 2: "unload (Suc (Suc 0)) 2 demo_tree = Some (Returns (upd 2 (\<lambda>ob. ob\<lparr>loaded := False\<rparr>) (emit (Onunload 2) (reset_disposables 2 (reset_intervals 2 (reset_children 2 demo_tree))))))"
    by (simp add: demo_tree_def eval_simps)
  from 1 2 unload_when_unloaded [of fresh 1 0 fresh 0 0]
    unload_when_unloaded [of demo_tree 2 "Suc 0" "upd 2 (\<lambda>ob. ob\<lparr>loaded := False\<rparr>) (emit (Onunload 2) (reset_disposables 2 (reset_intervals 2 (reset_children 2 demo_tree))))" 0 3]
  show ?thesis by simp
qed

text \<open>
  C5. As stated for every \<open>n\<close> and \<open>x\<close>, the claim fails when \<open>x\<close> is a child of \<open>n\<close> already:
  \<open>addChild\<close> adds a second entry and \<open>removeChild\<close> removes the first entry only.
\<close>

theorem addChild_removeChild_counterexample:
  "5 \<in> set (children (objs (snd (removeChild 0 5 (snd (addChild 0 5 demo_dup)))) 0))"
  by (simp add: demo_dup_def addChild_def removeChild_def splice1_def eval_simps)

text \<open>
  C5, amended. \<open>addChild\<close> and \<open>removeChild\<close> return their argument. \<open>removeChild(x)\<close> removes
  the first entry equal to \<open>x\<close> and is a no-op when there is none. \<open>addChild(x)\<close> followed by
  \<open>removeChild(x)\<close> calls nothing (the trace and every loaded flag are as before); when \<open>x\<close>
  was not a child of \<open>n\<close> the state is exactly as before, so \<open>x\<close> is not among the children;
  when \<open>x\<close> was a child already, its first entry is gone and the new entry, at the end,
  stays.
\<close>

theorem addChild_then_removeChild:
  "fst (addChild a x s) = x \<and> fst (removeChild a x s) = x
   \<and> children (objs (snd (removeChild a x s)) a) = remove1 x (children (objs s a))
   \<and> trace (snd (removeChild a x (snd (addChild a x s)))) = trace s
   \<and> (\<forall>b. loaded (objs (snd (removeChild a x (snd (addChild a x s)))) b) = loaded (objs s b))
   \<and> (x \<notin> set (children (objs s a)) \<longrightarrow>
        snd (removeChild a x s) = s \<and> snd (removeChild a x (snd (addChild a x s))) = s)
   \<and> (x \<in> set (children (objs s a)) \<longrightarrow>
        children (objs (snd (removeChild a x (snd (addChild a x s)))) a) = remove1 x (children (objs s a)) @ [x])"
proof -
  let ?s1 = "snd (addChild a x s)"
  have c1: "children (objs ?s1 a) = children (objs s a) @ [x]" by (simp add: addChild_def)
  have p: "x \<in> set (children (objs ?s1 a))" using c1 by simp
  have r: "snd (removeChild a x ?s1) = upd a (\<lambda>ob. ob\<lparr>children := remove1 x (children (objs s a) @ [x])\<rparr>) ?s1"
    using indexOf_present [OF p] c1 by (simp add: removeChild_def Let_def upd_def)
  have r': "snd (removeChild a x ?s1) = upd a (\<lambda>ob. ob\<lparr>children := remove1 x (children (objs s a) @ [x])\<rparr>) s"
    unfolding r by (simp add: addChild_def upd_def)
  have 1: "fst (addChild a x s) = x" "fst (removeChild a x s) = x"
    by (simp_all add: addChild_def removeChild_def Let_def)
  have 2: "trace (snd (removeChild a x ?s1)) = trace s"
    "loaded (objs (snd (removeChild a x ?s1)) b) = loaded (objs s b)" for b
    unfolding r' by simp_all
  have 3: "snd (removeChild a x s) = s" "snd (removeChild a x ?s1) = s" if "x \<notin> set (children (objs s a))"
  proof -
    show "snd (removeChild a x s) = s" using that by (simp add: removeChild_def indexOf_absent)
    have "remove1 x (children (objs s a) @ [x]) = children (objs s a)"
      using that by (simp add: remove1_append)
    then show "snd (removeChild a x ?s1) = s" unfolding r' by (simp add: upd_children_same)
  qed
  have 4: "children (objs (snd (removeChild a x ?s1)) a) = remove1 x (children (objs s a)) @ [x]"
    if "x \<in> set (children (objs s a))"
    unfolding r' using that by (simp add: remove1_append)
  show ?thesis using 1 2 3 4 removeChild_children [of a x s] by simp
qed

theorem addChild_then_removeChild_witness:
  "5 \<notin> set (children (objs fresh 0)) \<and> snd (removeChild 0 5 (snd (addChild 0 5 fresh))) = fresh
   \<and> 5 \<in> set (children (objs demo_dup 0))
   \<and> children (objs (snd (removeChild 0 5 (snd (addChild 0 5 demo_dup)))) 0) = [5]"
proof -
  have 1: "5 \<notin> set (children (objs fresh 0))" by (simp add: eval_simps)
  have 2: "5 \<in> set (children (objs demo_dup 0))" "children (objs demo_dup 0) = [5]"
    by (simp_all add: demo_dup_def addChild_def eval_simps)
  from addChild_then_removeChild [of 0 5 fresh] addChild_then_removeChild [of 0 5 demo_dup] 1 2
  show ?thesis by simp
qed




text \<open>
  C7. As stated for all six methods, the claim fails: \<open>addCommand\<close> and \<open>registerEvent\<close>
  register no callback (and \<open>registerEvent\<close> performs no side effect either). What they
  record is cleaned up by \<open>Plugin.onunload\<close>, so the plugin of the README, whose \<open>onunload\<close>
  does not call \<open>super.onunload()\<close>, is unloaded with its command still registered. And the
  callback of \<open>registerExtensions\<close> does not reverse exactly the registration when the caller
  has changed its array in between: registered with the array holding \<open>md\<close>, it unregisters
  \<open>md\<close> and \<open>txt\<close> after \<open>txt\<close> was added to the array; likewise the callback of \<open>addSettingTab\<close>
  unregisters the tab of whatever \<open>manifest.id\<close> is when it runs.
\<close>

theorem convenience_methods_counterexample:
  "disposables (objs (addCommand 0 ''my-command'' fresh) 0) = disposables (objs fresh 0)
   \<and> disposables (objs (registerEvent 0 3 fresh) 0) = disposables (objs fresh 0)
   \<and> trace (registerEvent 0 3 fresh) = trace fresh
   \<and> andThen (load (Suc (Suc 0)) 0 readme_plugin) (unload (Suc (Suc 0)) 0)
       = Some (Returns (upd 0 (\<lambda>ob. ob\<lparr>registeredCommands := [''my-command'']\<rparr>) (readme_plugin
           \<lparr>trace := [Onload 0, Extern (Effect ''Plugin loaded!''), Invoke (CallAddCommand 0 ''my-command''),
                       Extern (CommandsRegister ''my-command''),
                       Onunload 0, Extern (Effect ''Plugin unloaded!'')],
             detached_children := (\<lambda>_. [])(0 := [[]]), detached_disposables := (\<lambda>_. [])(0 := [[]])\<rparr>)))
   \<and> trace (registerExtensions 0 7 ''markdown'' demo_extensions)
       = [Extern (WorkspaceRegisterExtensions [''md''] ''markdown'')]
   \<and> disposables (objs (registerExtensions 0 7 ''markdown'' demo_extensions) 0) = [[UnregisterExtensions 7]]
   \<and> exec (Suc 0) [UnregisterExtensions 7] (push_extension (registerExtensions 0 7 ''markdown'' demo_extensions))
       = Some (Returns (emit (Extern (WorkspaceUnregisterExtensions [''md'', ''txt'']))
                          (push_extension (registerExtensions 0 7 ''markdown'' demo_extensions))))
   \<and> trace (addSettingTab 0 1 fresh) = [Extern (PluginsRegisterSettingsTab ''demo'' 1)]
   \<and> exec (Suc 0) [UnregisterSettingsTab 0] (upd 0 (\<lambda>ob. ob\<lparr>manifest_id := ''renamed''\<rparr>) (addSettingTab 0 1 fresh))
       = Some (Returns (emit (Extern (PluginsUnregisterSettingsTab ''renamed''))
                          (upd 0 (\<lambda>ob. ob\<lparr>manifest_id := ''renamed''\<rparr>) (addSettingTab 0 1 fresh))))"
  by (simp add: readme_plugin_def demo_extensions_def push_extension_def method_simps eval_simps fun_eq_iff)

text \<open>
  C7, amended. \<open>registerView\<close>, \<open>registerExtensions\<close>, \<open>loadCss\<close> and \<open>addSettingTab\<close> make their
  host call at once and register one callback, which, whenever it is run, makes one host
  call and changes nothing else. For \<open>registerView\<close> and \<open>loadCss\<close> that call reverses the
  registration: it unregisters the same view type, it removes the style element that was
  created. For \<open>registerExtensions\<close> it unregisters what the caller's array holds when the
  callback runs, and for \<open>addSettingTab\<close> it unregisters the tab of the \<open>manifest.id\<close> the
  plugin has when the callback runs. \<open>addCommand\<close> makes its host call and appends the
  command id to \<open>registeredCommands\<close>, \<open>registerEvent\<close> only appends the reference to
  \<open>registeredEvents\<close>; neither registers a callback. \<open>Plugin.onunload\<close> unregisters every
  recorded command id and then unsubscribes every recorded event reference.
\<close>

theorem convenience_methods:
  "trace (registerView a ty s) = trace s @ [Extern (WorkspaceRegisterView ty)]
   \<and> disposables (objs (registerView a ty s) a) = disposables (objs s a) @ [[Host (WorkspaceUnregisterView ty)]]
   \<and> exec (Suc n) [Host (WorkspaceUnregisterView ty)] t = Some (Returns (emit (Extern (WorkspaceUnregisterView ty)) t))
   \<and> trace (registerExtensions a r vt s) = trace s @ [Extern (WorkspaceRegisterExtensions (arrays s r) vt)]
   \<and> disposables (objs (registerExtensions a r vt s) a) = disposables (objs s a) @ [[UnregisterExtensions r]]
   \<and> exec (Suc n) [UnregisterExtensions r] t
        = Some (Returns (emit (Extern (WorkspaceUnregisterExtensions (arrays t r))) t))
   \<and> trace (loadCss a css s) = trace s @ [Extern (HeadAppendStyle (''plugin-css-'' @ manifest_id (objs s a)) css)]
   \<and> disposables (objs (loadCss a css s) a)
        = disposables (objs s a) @ [[Host (StyleRemove (''plugin-css-'' @ manifest_id (objs s a)) css)]]
   \<and> exec (Suc n) [Host (StyleRemove (''plugin-css-'' @ manifest_id (objs s a)) css)] t
        = Some (Returns (emit (Extern (StyleRemove (''plugin-css-'' @ manifest_id (objs s a)) css)) t))
   \<and> trace (addSettingTab a tab s) = trace s @ [Extern (PluginsRegisterSettingsTab (manifest_id (objs s a)) tab)]
   \<and> disposables (objs (addSettingTab a tab s) a) = disposables (objs s a) @ [[UnregisterSettingsTab a]]
   \<and> exec (Suc n) [UnregisterSettingsTab a] t
        = Some (Returns (emit (Extern (PluginsUnregisterSettingsTab (manifest_id (objs t a)))) t))
   \<and> trace (addCommand a cid s) = trace s @ [Extern (CommandsRegister cid)]
   \<and> disposables (objs (addCommand a cid s) a) = disposables (objs s a)
   \<and> registeredCommands (objs (addCommand a cid s) a) = registeredCommands (objs s a) @ [cid]
   \<and> trace (registerEvent a ref s) = trace s
   \<and> disposables (objs (registerEvent a ref s) a) = disposables (objs s a)
   \<and> registeredEvents (objs (registerEvent a ref s) a) = registeredEvents (objs s a) @ [ref]
   \<and> plugin_onunload a s = s\<lparr>trace := trace s
        @ map (\<lambda>cid. Extern (CommandsUnregister cid)) (registeredCommands (objs s a))
        @ map (\<lambda>ref. Extern (EventsOff ref)) (registeredEvents (objs s a))\<rparr>"
  by (simp add: method_simps plugin_onunload_eq Let_def)

text \<open>
  C8. \<open>loadData\<close> and \<open>saveData\<close> always resolve, whatever the platform does, and leave the
  lifecycle fields of every component as they were. \<open>loadData\<close> resolves to the empty object
  when the settings file does not exist, and, with the failure logged, whenever anything
  in its \<open>try\<close> block fails, as when the file cannot be read or parsed. \<open>saveData\<close> logs
  whatever fails in its \<open>try\<close> block and resolves.
\<close>

theorem persistence_never_raises:
  "(\<exists>v s'. loadData P a s = Inr (v, s') \<and> same_lifecycle s s')
   \<and> (loadData_try P a s = Inl (err, sf) \<longrightarrow>
        loadData P a s = Inr (JObj [], console_error (''Failed to load settings for '' @ manifest_id (objs sf a) @ '':'') sf))
   \<and> (import_fs P \<and> getSettingsPath P a s = Inr (path, s) \<and> fs_exists P path s = Inr (False, s) \<longrightarrow>
        loadData P a s = Inr (JObj [], s))
   \<and> (import_fs P \<and> getSettingsPath P a s = Inr (path, s) \<and> fs_exists P path s = Inr (True, s)
        \<and> (fs_readTextFile P path s = Inl (err, s)
            \<or> fs_readTextFile P path s = Inr (raw, s) \<and> JSON_parse P raw = None) \<longrightarrow>
        loadData P a s = Inr (JObj [], console_error (''Failed to load settings for '' @ manifest_id (objs s a) @ '':'') s))
   \<and> (\<exists>s'. saveData P a d s = Inr ((), s') \<and> same_lifecycle s s')
   \<and> (saveData_try P a d s = Inl (err, sf) \<longrightarrow>
        saveData P a d s = Inr ((), console_error (''Failed to save settings for '' @ manifest_id (objs sf a) @ '':'') sf))"
proof -
  have l: "\<exists>v s'. loadData P a s = Inr (v, s')"
    unfolding loadData_def by (rule try_catch_Inr) simp
  have 1: "\<exists>v s'. loadData P a s = Inr (v, s') \<and> same_lifecycle s s'"
    using l harmless_loadData [of P a, unfolded harmless_def, rule_format, of s] by auto
  have sv: "\<exists>v s'. saveData P a d s = Inr (v, s')"
    unfolding saveData_def by (rule try_catch_Inr) simp
  have 5: "\<exists>s'. saveData P a d s = Inr ((), s') \<and> same_lifecycle s s'"
    using sv harmless_saveData [of P a d, unfolded harmless_def, rule_format, of s] by auto
  have 2: "loadData P a s = Inr (JObj [], console_error (''Failed to load settings for '' @ manifest_id (objs sf a) @ '':'') sf)"
    if "loadData_try P a s = Inl (err, sf)"
    using that by (simp add: loadData_def try_catch_def)
  have 6: "saveData P a d s = Inr ((), console_error (''Failed to save settings for '' @ manifest_id (objs sf a) @ '':'') sf)"
    if "saveData_try P a d s = Inl (err, sf)"
    using that by (simp add: saveData_def try_catch_def)
  have 3: "loadData P a s = Inr (JObj [], s)"
    if "import_fs P \<and> getSettingsPath P a s = Inr (path, s) \<and> fs_exists P path s = Inr (False, s)"
    using that by (simp add: loadData_def loadData_try_def try_catch_def await_def dynamic_import_def)
  have 4: "loadData P a s = Inr (JObj [], console_error (''Failed to load settings for '' @ manifest_id (objs s a) @ '':'') s)"
    if "import_fs P \<and> getSettingsPath P a s = Inr (path, s) \<and> fs_exists P path s = Inr (True, s)
        \<and> (fs_readTextFile P path s = Inl (err, s)
            \<or> fs_readTextFile P path s = Inr (raw, s) \<and> JSON_parse P raw = None)"
    using that by (auto simp: loadData_def loadData_try_def try_catch_def await_def dynamic_import_def settle_def)
  show ?thesis using 1 2 3 4 5 6 by blast
qed

theorem persistence_never_raises_witness:
  "import_fs demo_platform
   \<and> getSettingsPath demo_platform 0 fresh = Inr (''cfg/plugins/demo/settings.json'', fresh)
   \<and> fs_exists demo_platform ''cfg/plugins/demo/settings.json'' fresh = Inr (False, fresh)
   \<and> loadData demo_platform 0 fresh = Inr (JObj [], fresh)
   \<and> fs_exists demo_platform ''cfg/plugins/demo/settings.json'' broken_settings = Inr (True, broken_settings)
   \<and> fs_readTextFile demo_platform ''cfg/plugins/demo/settings.json'' broken_settings = Inr (''{bad'', broken_settings)
   \<and> JSON_parse demo_platform ''{bad'' = None
   \<and> loadData_try demo_platform 0 broken_settings = Inl (''JSON.parse'', broken_settings)
   \<and> loadData demo_platform 0 broken_settings
        = Inr (JObj [], console_error ''Failed to load settings for demo:'' broken_settings)
   \<and> saveData_try (demo_platform\<lparr>writeTextFile_fails := (\<lambda>_. True)\<rparr>) 0 (JObj []) fresh
        = Inl (''writeTextFile'', upd 0 (\<lambda>ob. ob\<lparr>settingsData := JObj []\<rparr>) (fresh\<lparr>dirs := [''cfg/plugins/demo'', ''cfg/plugins'']\<rparr>))
   \<and> saveData (demo_platform\<lparr>writeTextFile_fails := (\<lambda>_. True)\<rparr>) 0 (JObj []) fresh
        = Inr ((), console_error ''Failed to save settings for demo:''
            (upd 0 (\<lambda>ob. ob\<lparr>settingsData := JObj []\<rparr>) (fresh\<lparr>dirs := [''cfg/plugins/demo'', ''cfg/plugins'']\<rparr>)))"
proof -
  let ?p = "''cfg/plugins/demo/settings.json''"
  have m: "manifest_id (objs fresh 0) = ''demo''" "manifest_id (objs broken_settings 0) = ''demo''"
    by (simp_all add: broken_settings_def eval_simps)
  have i: "import_fs demo_platform" by (simp add: demo_platform_def)
  have p1: "getSettingsPath demo_platform 0 fresh = Inr (?p, fresh)"
    by (simp add: getSettingsPath_def getSettingsDir_def demo_platform_def await_def dynamic_import_def settle_def m)
  have p2: "getSettingsPath demo_platform 0 broken_settings = Inr (?p, broken_settings)"
    by (simp add: getSettingsPath_def getSettingsDir_def demo_platform_def await_def dynamic_import_def settle_def m)
  have e1: "fs_exists demo_platform ?p fresh = Inr (False, fresh)"
    by (simp add: fs_exists_def demo_platform_def eval_simps)
  have e2: "fs_exists demo_platform ?p broken_settings = Inr (True, broken_settings)"
    by (simp add: fs_exists_def demo_platform_def broken_settings_def)
  have r2: "fs_readTextFile demo_platform ?p broken_settings = Inr (''{bad'', broken_settings)"
    by (simp add: fs_readTextFile_def settle_def demo_platform_def broken_settings_def)
  have j: "JSON_parse demo_platform ''{bad'' = None" by (simp add: demo_platform_def)
  have t2: "loadData_try demo_platform 0 broken_settings = Inl (''JSON.parse'', broken_settings)"
    using i p2 e2 r2 j by (simp add: loadData_try_def await_def dynamic_import_def settle_def)
  have t3: "saveData_try (demo_platform\<lparr>writeTextFile_fails := (\<lambda>_. True)\<rparr>) 0 (JObj []) fresh
        = Inl (''writeTextFile'', upd 0 (\<lambda>ob. ob\<lparr>settingsData := JObj []\<rparr>) (fresh\<lparr>dirs := [''cfg/plugins/demo'', ''cfg/plugins'']\<rparr>))"
    by (simp add: saveData_try_def ensureSettingsDir_def ensureSettingsDir_try_def getSettingsPath_def
        getSettingsDir_def try_catch_def await_def dynamic_import_def settle_def fs_exists_def fs_mkdir_def
        fs_writeTextFile_def demo_platform_def eval_simps)
  have m3: "manifest_id (objs (upd 0 (\<lambda>ob. ob\<lparr>settingsData := JObj []\<rparr>) (fresh\<lparr>dirs := [''cfg/plugins/demo'', ''cfg/plugins'']\<rparr>)) 0) = ''demo''"
    by (simp add: eval_simps)
  from persistence_never_raises [where P = demo_platform and a = 0 and s = fresh and path = ?p]
    persistence_never_raises [where P = demo_platform and a = 0 and s = broken_settings and path = ?p
      and raw = "''{bad''" and err = "''JSON.parse''" and sf = broken_settings]
    persistence_never_raises [where P = "demo_platform\<lparr>writeTextFile_fails := (\<lambda>_. True)\<rparr>" and a = 0 and s = fresh
      and d = "JObj []" and err = "''writeTextFile''"
      and sf = "upd 0 (\<lambda>ob. ob\<lparr>settingsData := JObj []\<rparr>) (fresh\<lparr>dirs := [''cfg/plugins/demo'', ''cfg/plugins'']\<rparr>)"]
    i p1 p2 e1 e2 r2 j t2 t3 m m3
  show ?thesis by simp
qed




text \<open>
  C10. \<open>Plugin.onunload\<close> assigns neither array: it leaves every object as it is and makes
  one \<open>unregister\<close> call for every entry of \<open>registeredCommands\<close> and then one \<open>off\<close> call for every
  entry of \<open>registeredEvents\<close>. \<open>addCommand\<close> and \<open>registerEvent\<close> append, and no run of a
  callback, of \<open>load\<close> or of \<open>unload\<close> ever removes an entry from either array or changes its
  order. So whenever \<open>unload()\<close> of a loaded plugin that inherits \<open>Plugin.onunload\<close> returns, the
  trace ends with the teardown hook unregistering every command id and unsubscribing every
  event reference recorded so far, those of earlier cycles first.
\<close>

theorem plugin_records_never_cleared:
  "objs (plugin_onunload a t) = objs t
   \<and> trace (plugin_onunload a t) = trace t
        @ map (\<lambda>cid. Extern (CommandsUnregister cid)) (registeredCommands (objs t a))
        @ map (\<lambda>ref. Extern (EventsOff ref)) (registeredEvents (objs t a))
   \<and> registeredCommands (objs (addCommand a cid t) a) = registeredCommands (objs t a) @ [cid]
   \<and> registeredEvents (objs (registerEvent a ref t) a) = registeredEvents (objs t a) @ [ref]
   \<and> (exec k cb t = Some r \<or> load k b t = Some r \<or> unload k b t = Some r \<longrightarrow>
        prefix (registeredCommands (objs t a)) (registeredCommands (objs (state_of r) a))
        \<and> prefix (registeredEvents (objs t a)) (registeredEvents (objs (state_of r) a)))
   \<and> (loaded (objs s a) \<and> onunload_hook (objs s a) = [PluginOnunload a]
        \<and> unload (Suc (Suc n)) a s = Some (Returns s') \<longrightarrow>
        prefix (registeredCommands (objs s a)) (registeredCommands (objs s' a))
        \<and> prefix (registeredEvents (objs s a)) (registeredEvents (objs s' a))
        \<and> (\<exists>t0. trace s' = t0 @ Onunload a
              # map (\<lambda>cid. Extern (CommandsUnregister cid)) (registeredCommands (objs s' a))
              @ map (\<lambda>ref. Extern (EventsOff ref)) (registeredEvents (objs s' a))))"
proof -
  have 1: "prefix (registeredCommands (objs s a)) (registeredCommands (objs s' a))
        \<and> prefix (registeredEvents (objs s a)) (registeredEvents (objs s' a))
        \<and> (\<exists>t0. trace s' = t0 @ Onunload a
              # map (\<lambda>cid. Extern (CommandsUnregister cid)) (registeredCommands (objs s' a))
              @ map (\<lambda>ref. Extern (EventsOff ref)) (registeredEvents (objs s' a)))"
    if l: "loaded (objs s a)" and h: "onunload_hook (objs s a) = [PluginOnunload a]"
      and u: "unload (Suc (Suc n)) a s = Some (Returns s')"
  proof -
    from unload_returns_hook [OF l u] obtain s4 s5 where c: "carried_over s s4"
      and e: "exec (Suc n) (onunload_hook (objs s4 a)) (emit (Onunload a) s4) = Some (Returns s5)"
      and s': "s' = upd a (\<lambda>ob. ob\<lparr>loaded := False\<rparr>) s5" by blast
    from c h have "onunload_hook (objs s4 a) = [PluginOnunload a]" by (simp add: carried_over_def)
    with e have s5: "s5 = plugin_onunload a (emit (Onunload a) s4)" by simp
    from c have "prefix (registeredCommands (objs s a)) (registeredCommands (objs s4 a))"
      "prefix (registeredEvents (objs s a)) (registeredEvents (objs s4 a))"
      by (simp_all add: carried_over_def)
    then show ?thesis unfolding s' s5 by (simp add: plugin_onunload_eq)
  qed
  have 2: "registeredCommands (objs (addCommand a cid t) a) = registeredCommands (objs t a) @ [cid]"
    "registeredEvents (objs (registerEvent a ref t) a) = registeredEvents (objs t a) @ [ref]"
    "objs (plugin_onunload a t) = objs t"
    by (simp_all add: addCommand_def registerEvent_def plugin_onunload_eq)
  have 3: "prefix (registeredCommands (objs t a)) (registeredCommands (objs (state_of r) a))
        \<and> prefix (registeredEvents (objs t a)) (registeredEvents (objs (state_of r) a))"
    if "exec k cb t = Some r \<or> load k b t = Some r \<or> unload k b t = Some r"
    using that carried_over_run [of k _ t r] by (auto simp: carried_over_def)
  show ?thesis using 1 2 3 by (simp only: trace_methods) blast
qed

theorem plugin_records_never_cleared_witness:
  "(\<exists>s1 s2 s3 s4.
      load (Suc (Suc 0)) 0 demo_plugin = Some (Returns s1) \<and> unload (Suc (Suc 0)) 0 s1 = Some (Returns s2)
      \<and> load (Suc (Suc 0)) 0 s2 = Some (Returns s3) \<and> unload (Suc (Suc 0)) 0 s3 = Some (Returns s4)
      \<and> loaded (objs s3 0) \<and> onunload_hook (objs s3 0) = [PluginOnunload 0]
      \<and> registeredCommands (objs s2 0) = [''my-command'']
      \<and> registeredCommands (objs s3 0) = [''my-command'', ''my-command'']
      \<and> registeredCommands (objs s4 0) = [''my-command'', ''my-command'']
      \<and> registeredEvents (objs s4 0) = [3, 3]
      \<and> prefix (registeredCommands (objs s2 0)) (registeredCommands (objs s3 0))
      \<and> (\<exists>t. trace s4 = t @ [Onunload 0, Extern (CommandsUnregister ''my-command''),
             Extern (CommandsUnregister ''my-command''), Extern (EventsOff 3), Extern (EventsOff 3)]))"
proof -
  let ?s1 = "state_of (the (load (Suc (Suc 0)) 0 demo_plugin))"
  let ?s2 = "state_of (the (unload (Suc (Suc 0)) 0 ?s1))"
  let ?s3 = "state_of (the (load (Suc (Suc 0)) 0 ?s2))"
  let ?s4 = "state_of (the (unload (Suc (Suc 0)) 0 ?s3))"
  note defs = demo_plugin_def eval_simps method_simps plugin_onunload_eq
  have r1: "load (Suc (Suc 0)) 0 demo_plugin = Some (Returns ?s1)" by (simp add: defs)
  have r2: "unload (Suc (Suc 0)) 0 ?s1 = Some (Returns ?s2)" by (simp add: defs)
  have r3: "load (Suc (Suc 0)) 0 ?s2 = Some (Returns ?s3)" by (simp add: defs)
  have r4: "unload (Suc (Suc 0)) 0 ?s3 = Some (Returns ?s4)" by (simp add: defs)
  have l3: "loaded (objs ?s3 0)" by (simp add: defs)
  have h: "onunload_hook (objs ?s3 0) = [PluginOnunload 0]" by (simp add: defs)
  have v: "registeredCommands (objs ?s2 0) = [''my-command'']"
    "registeredCommands (objs ?s3 0) = [''my-command'', ''my-command'']"
    "registeredCommands (objs ?s4 0) = [''my-command'', ''my-command'']"
    "registeredEvents (objs ?s4 0) = [3, 3]"
    by (simp_all add: defs)
  from plugin_records_never_cleared [where s = ?s3 and a = 0 and n = 0 and s' = ?s4
      and k = "Suc (Suc 0)" and b = 0 and t = ?s2 and r = "Returns ?s3"]
  have "(load (Suc (Suc 0)) 0 ?s2 = Some (Returns ?s3) \<longrightarrow>
          prefix (registeredCommands (objs ?s2 0)) (registeredCommands (objs (state_of (Returns ?s3)) 0)))
      \<and> (loaded (objs ?s3 0) \<and> onunload_hook (objs ?s3 0) = [PluginOnunload 0]
          \<and> unload (Suc (Suc 0)) 0 ?s3 = Some (Returns ?s4) \<longrightarrow>
          (\<exists>t0. trace ?s4 = t0 @ Onunload 0
              # map (\<lambda>cid. Extern (CommandsUnregister cid)) (registeredCommands (objs ?s4 0))
              @ map (\<lambda>ref. Extern (EventsOff ref)) (registeredEvents (objs ?s4 0))))"
    by blast
  with r3 l3 h r4
  have "prefix (registeredCommands (objs ?s2 0)) (registeredCommands (objs (state_of (Returns ?s3)) 0))
      \<and> (\<exists>t0. trace ?s4 = t0 @ Onunload 0
              # map (\<lambda>cid. Extern (CommandsUnregister cid)) (registeredCommands (objs ?s4 0))
              @ map (\<lambda>ref. Extern (EventsOff ref)) (registeredEvents (objs ?s4 0)))"
    by blast
  then have "prefix (registeredCommands (objs ?s2 0)) (registeredCommands (objs ?s3 0))
      \<and> (\<exists>t. trace ?s4 = t @ [Onunload 0, Extern (CommandsUnregister ''my-command''),
             Extern (CommandsUnregister ''my-command''), Extern (EventsOff 3), Extern (EventsOff 3)])"
    by (simp only: v state_of.simps list.map append.simps)
  with r1 r2 r3 r4 l3 h v show ?thesis by blast
qed

end
